theory Spec2Isabelle
  imports Main "HOL-Library.Word"
begin

unbundle bit_operations_syntax

section \<open>Ten delta-sigma modulators and their colour envelopes (main.c)\<close>

text \<open>
  The program runs on an MSP430: \<^verbatim>\<open>unsigned int\<close> and \<^verbatim>\<open>int\<close> are 16 bits wide,
  \<^verbatim>\<open>unsigned char\<close> is 8 bits wide. Unsigned values are words whose arithmetic wraps;
  the signed counters are 16-bit words read through \<open>sint\<close> (two's complement).
\<close>

type_synonym uint16 = "16 word"
type_synonym uchar = "8 word"
type_synonym int16 = "16 word"

subsection \<open>Configuration macros\<close>

definition N_CH :: nat where "N_CH = 10"
definition LOOP_SPEED :: nat where "LOOP_SPEED = 6"

definition MAX_CH_0_2 :: int where "MAX_CH_0_2 = 200"
definition MAX_CH_3_5 :: int where "MAX_CH_3_5 = 200"
definition MAX_CH_6_7 :: int where "MAX_CH_6_7 = 100"
definition MAX_CH_8_9 :: int where "MAX_CH_8_9 = 150"

definition STEPS_CH_0_2 :: int where "STEPS_CH_0_2 = 100"
definition STEPS_CH_3_5 :: int where "STEPS_CH_3_5 = 100"
definition STEPS_CH_6_7 :: int where "STEPS_CH_6_7 = 50"
definition STEPS_CH_8_9 :: int where "STEPS_CH_8_9 = 150"

text \<open>The operands are positive, so C's truncating division is \<open>div\<close>.\<close>

definition INC_CH_0_2 :: int where "INC_CH_0_2 = MAX_CH_0_2 div STEPS_CH_0_2"
definition INC_CH_3_5 :: int where "INC_CH_3_5 = MAX_CH_3_5 div STEPS_CH_3_5"
definition INC_CH_6_7 :: int where "INC_CH_6_7 = MAX_CH_6_7 div STEPS_CH_6_7"
definition INC_CH_8_9 :: int where "INC_CH_8_9 = MAX_CH_8_9 div STEPS_CH_8_9"

subsection \<open>Global and static variables\<close>

text \<open>
  The arrays \<^verbatim>\<open>max\<close>, \<^verbatim>\<open>req\<close> and \<^verbatim>\<open>sum\<close> (fields \<open>max_ch\<close>, \<open>req\<close>, \<open>sum_ch\<close>: the
  names \<open>max\<close> and \<open>sum\<close> are taken in HOL), \<^verbatim>\<open>outBits\<close>, and the \<^verbatim>\<open>static int stCnt\<close>
  of each of the four envelope functions.
\<close>

record state =
  max_ch :: "uint16 list"
  req :: "uchar list"
  sum_ch :: "uint16 list"
  outBits :: uint16
  stCnt_0_2 :: int16
  stCnt_3_5 :: int16
  stCnt_6_7 :: int16
  stCnt_8_9 :: int16

text \<open>Every array is declared with \<^verbatim>\<open>N_CH\<close> entries.\<close>

definition arrays_ok :: "state \<Rightarrow> bool" where
  "arrays_ok s \<longleftrightarrow>
     length (max_ch s) = N_CH \<and> length (req s) = N_CH \<and> length (sum_ch s) = N_CH"

text \<open>
  The state when \<^verbatim>\<open>main\<close> is entered: globals without an initialiser are zero, each
  \<^verbatim>\<open>stCnt\<close> has its static initialiser.
\<close>

definition power_on :: state where
  "power_on =
     \<lparr> max_ch = replicate N_CH 0, req = replicate N_CH 0, sum_ch = replicate N_CH 0,
       outBits = 0,
       stCnt_0_2 = 0,
       stCnt_3_5 = of_int (3 * STEPS_CH_3_5),
       stCnt_6_7 = 0,
       stCnt_8_9 = of_int (2 * STEPS_CH_8_9) \<rparr>"

subsection \<open>\<^verbatim>\<open>init_all_CH_arrays\<close>\<close>

definition init_all_CH_arrays :: "state \<Rightarrow> state" where
  "init_all_CH_arrays s =
     s\<lparr> max_ch := (max_ch s)
          [0 := of_int MAX_CH_0_2, 1 := of_int MAX_CH_0_2, 2 := of_int MAX_CH_0_2,
           3 := of_int MAX_CH_3_5, 4 := of_int MAX_CH_3_5, 5 := of_int MAX_CH_3_5,
           6 := of_int MAX_CH_6_7, 7 := of_int MAX_CH_6_7,
           8 := of_int MAX_CH_8_9, 9 := of_int MAX_CH_8_9],
        req := (req s)
          [0 := of_int MAX_CH_0_2, 1 := 0, 2 := 0,
           3 := 0, 4 := of_int MAX_CH_3_5, 5 := of_int MAX_CH_3_5,
           6 := 0, 7 := 0,
           8 := of_int MAX_CH_8_9, 9 := of_int MAX_CH_8_9] \<rparr>"

definition initial_state :: state where
  "initial_state = init_all_CH_arrays power_on"

subsection \<open>The envelope functions\<close>

text \<open>
  Each function runs its \<^verbatim>\<open>if\<close> statements in sequence on the same, unchanged
  \<^verbatim>\<open>stCnt\<close>, then increments \<^verbatim>\<open>stCnt\<close> modulo the length of the cycle.
  \<open>adjust c lo hi i d\<close> is one statement
  \<^verbatim>\<open>if ((stCnt >= lo) && (stCnt < hi)) req[i] += d;\<close>, the sum truncated to 8 bits.
\<close>

definition adjust :: "int16 \<Rightarrow> int \<Rightarrow> int \<Rightarrow> nat \<Rightarrow> int \<Rightarrow> uchar list \<Rightarrow> uchar list" where
  "adjust c lo hi i d r =
     (if lo \<le> sint c \<and> sint c < hi then r[i := r ! i + of_int d] else r)"

text \<open>\<^verbatim>\<open>if (++stCnt >= n) stCnt = 0;\<close>\<close>

definition next_stCnt :: "int16 \<Rightarrow> int \<Rightarrow> int16" where
  "next_stCnt c n = (if n \<le> sint (c + 1) then 0 else c + 1)"

definition calc_CH_0_TO_2 :: "state \<Rightarrow> state" where
  "calc_CH_0_TO_2 s =
     (let c = stCnt_0_2 s;
          r1 = adjust c (0 * STEPS_CH_0_2) (1 * STEPS_CH_0_2) 1 INC_CH_0_2 (req s);
          r2 = adjust c (1 * STEPS_CH_0_2) (2 * STEPS_CH_0_2) 0 (- INC_CH_0_2) r1;
          r3 = adjust c (2 * STEPS_CH_0_2) (3 * STEPS_CH_0_2) 2 INC_CH_0_2 r2;
          r4 = adjust c (3 * STEPS_CH_0_2) (4 * STEPS_CH_0_2) 1 (- INC_CH_0_2) r3;
          r5 = adjust c (4 * STEPS_CH_0_2) (5 * STEPS_CH_0_2) 0 INC_CH_0_2 r4;
          r6 = adjust c (5 * STEPS_CH_0_2) (6 * STEPS_CH_0_2) 2 (- INC_CH_0_2) r5
      in s\<lparr> req := r6, stCnt_0_2 := next_stCnt c (6 * STEPS_CH_0_2) \<rparr>)"

definition calc_CH_3_TO_5 :: "state \<Rightarrow> state" where
  "calc_CH_3_TO_5 s =
     (let c = stCnt_3_5 s;
          r1 = adjust c (0 * STEPS_CH_3_5) (1 * STEPS_CH_3_5) 4 INC_CH_3_5 (req s);
          r2 = adjust c (1 * STEPS_CH_3_5) (2 * STEPS_CH_3_5) 3 (- INC_CH_3_5) r1;
          r3 = adjust c (2 * STEPS_CH_3_5) (3 * STEPS_CH_3_5) 5 INC_CH_3_5 r2;
          r4 = adjust c (3 * STEPS_CH_3_5) (4 * STEPS_CH_3_5) 4 (- INC_CH_3_5) r3;
          r5 = adjust c (4 * STEPS_CH_3_5) (5 * STEPS_CH_3_5) 3 INC_CH_3_5 r4;
          r6 = adjust c (5 * STEPS_CH_3_5) (6 * STEPS_CH_3_5) 5 (- INC_CH_3_5) r5
      in s\<lparr> req := r6, stCnt_3_5 := next_stCnt c (6 * STEPS_CH_3_5) \<rparr>)"

definition calc_CH_6_TO_7 :: "state \<Rightarrow> state" where
  "calc_CH_6_TO_7 s =
     (let c = stCnt_6_7 s;
          r1 = adjust c (0 * STEPS_CH_6_7) (1 * STEPS_CH_6_7) 7 INC_CH_6_7 (req s);
          r2 = adjust c (1 * STEPS_CH_6_7) (2 * STEPS_CH_6_7) 6 INC_CH_6_7 r1;
          r3 = adjust c (2 * STEPS_CH_6_7) (3 * STEPS_CH_6_7) 7 (- INC_CH_6_7) r2;
          r4 = adjust c (3 * STEPS_CH_6_7) (4 * STEPS_CH_6_7) 6 (- INC_CH_6_7) r3
      in s\<lparr> req := r4, stCnt_6_7 := next_stCnt c (4 * STEPS_CH_6_7) \<rparr>)"

definition calc_CH_8_TO_9 :: "state \<Rightarrow> state" where
  "calc_CH_8_TO_9 s =
     (let c = stCnt_8_9 s;
          r1 = adjust c (0 * STEPS_CH_8_9) (1 * STEPS_CH_8_9) 9 INC_CH_8_9 (req s);
          r2 = adjust c (1 * STEPS_CH_8_9) (2 * STEPS_CH_8_9) 8 INC_CH_8_9 r1;
          r3 = adjust c (2 * STEPS_CH_8_9) (3 * STEPS_CH_8_9) 9 (- INC_CH_8_9) r2;
          r4 = adjust c (3 * STEPS_CH_8_9) (4 * STEPS_CH_8_9) 8 (- INC_CH_8_9) r3
      in s\<lparr> req := r4, stCnt_8_9 := next_stCnt c (4 * STEPS_CH_8_9) \<rparr>)"

subsection \<open>\<^verbatim>\<open>calc_output_bits\<close>\<close>

text \<open>
  The body of the \<^verbatim>\<open>for\<close> loop for channel \<open>n\<close>: shift \<^verbatim>\<open>outBits\<close>, add the request
  (promoted to 16 bits) to the integrator, then either set the new least significant
  bit or subtract \<^verbatim>\<open>max[n]\<close>.
\<close>

definition modulate :: "nat \<Rightarrow> state \<Rightarrow> state" where
  "modulate n s =
     (let ob = push_bit 1 (outBits s);
          sm = sum_ch s ! n + ucast (req s ! n)
      in if sm < max_ch s ! n
         then s\<lparr> sum_ch := (sum_ch s)[n := sm], outBits := ob + 1 \<rparr>
         else s\<lparr> sum_ch := (sum_ch s)[n := sm - max_ch s ! n], outBits := ob \<rparr>)"

text \<open>
  \<^verbatim>\<open>for (n = N_CH - 1; n >= 0; --n)\<close>: \<open>modulate_from k\<close> runs the iterations
  \<open>n = k - 1\<close> down to \<open>n = 0\<close>.
\<close>

fun modulate_from :: "nat \<Rightarrow> state \<Rightarrow> state" where
  "modulate_from 0 s = s"
| "modulate_from (Suc n) s = modulate_from n (modulate n s)"

definition calc_output_bits :: "state \<Rightarrow> state" where
  "calc_output_bits s = modulate_from N_CH s"

subsection \<open>The main loop\<close>

text \<open>
  One pass of the infinite loop of \<^verbatim>\<open>main\<close>, after the interrupt has woken it up. The
  local \<^verbatim>\<open>intCnt\<close> is passed beside the state (the source leaves it uninitialised).
\<close>

definition envelope_due :: "int16 \<Rightarrow> bool" where
  "envelope_due cnt \<longleftrightarrow> (cnt + 1) AND push_bit LOOP_SPEED 1 \<noteq> 0"

definition calc_all_envelopes :: "state \<Rightarrow> state" where
  "calc_all_envelopes s =
     calc_CH_8_TO_9 (calc_CH_6_TO_7 (calc_CH_3_TO_5 (calc_CH_0_TO_2 s)))"

definition main_loop_body :: "int16 \<times> state \<Rightarrow> int16 \<times> state" where
  "main_loop_body cs =
     (case cs of (intCnt, s) \<Rightarrow>
        if envelope_due intCnt
        then (0, calc_output_bits (calc_all_envelopes s))
        else (intCnt + 1, calc_output_bits s))"

text \<open>The values the interrupt routine writes to the two ports.\<close>

definition P1_COMM_ANOD :: uint16 where "P1_COMM_ANOD = 0x3F"
definition P2_COMM_ANOD :: uint16 where "P2_COMM_ANOD = 0x00"

definition Watchdog_Timer :: "state \<Rightarrow> 8 word \<times> 8 word" where
  "Watchdog_Timer s =
     (ucast (outBits s XOR P1_COMM_ANOD), ucast (drop_bit 2 (outBits s) XOR P2_COMM_ANOD))"

subsection \<open>Running the program\<close>

text \<open>\<open>run_steps k\<close> is \<open>k\<close> consecutive calls of \<^verbatim>\<open>calc_output_bits\<close>.\<close>

fun run_steps :: "nat \<Rightarrow> state \<Rightarrow> state" where
  "run_steps 0 s = s"
| "run_steps (Suc k) s = run_steps k (calc_output_bits s)"

text \<open>
  The number of those \<open>k\<close> calls after which bit \<open>n\<close> of \<^verbatim>\<open>outBits\<close>, the output of
  channel \<open>n\<close>, is 1, and the number after which it is 0.
\<close>

fun count_ones :: "nat \<Rightarrow> nat \<Rightarrow> state \<Rightarrow> nat" where
  "count_ones n 0 s = 0"
| "count_ones n (Suc k) s =
     (if bit (outBits (calc_output_bits s)) n then 1 else 0)
       + count_ones n k (calc_output_bits s)"

fun count_zeros :: "nat \<Rightarrow> nat \<Rightarrow> state \<Rightarrow> nat" where
  "count_zeros n 0 s = 0"
| "count_zeros n (Suc k) s =
     (if bit (outBits (calc_output_bits s)) n then 0 else 1)
       + count_zeros n k (calc_output_bits s)"

text \<open>\<open>repeat k f\<close> calls \<open>f\<close> \<open>k\<close> times.\<close>

fun repeat :: "nat \<Rightarrow> (state \<Rightarrow> state) \<Rightarrow> state \<Rightarrow> state" where
  "repeat 0 f s = s"
| "repeat (Suc k) f s = repeat k f (f s)"

text \<open>
  Any interleaving of calls of the four envelope functions and of
  \<^verbatim>\<open>calc_output_bits\<close>, run from a given state.
\<close>

datatype call = Calc_CH_0_TO_2 | Calc_CH_3_TO_5 | Calc_CH_6_TO_7 | Calc_CH_8_TO_9
  | Calc_output_bits

fun do_call :: "call \<Rightarrow> state \<Rightarrow> state" where
  "do_call Calc_CH_0_TO_2 s = calc_CH_0_TO_2 s"
| "do_call Calc_CH_3_TO_5 s = calc_CH_3_TO_5 s"
| "do_call Calc_CH_6_TO_7 s = calc_CH_6_TO_7 s"
| "do_call Calc_CH_8_TO_9 s = calc_CH_8_TO_9 s"
| "do_call Calc_output_bits s = calc_output_bits s"

fun run_calls :: "call list \<Rightarrow> state \<Rightarrow> state" where
  "run_calls [] s = s"
| "run_calls (c # cs) s = run_calls cs (do_call c s)"

text \<open>
  \<open>k\<close> passes of the main loop, and the number of those passes in which the envelope
  functions are called.
\<close>

fun main_loop :: "nat \<Rightarrow> int16 \<times> state \<Rightarrow> int16 \<times> state" where
  "main_loop 0 cs = cs"
| "main_loop (Suc k) cs = main_loop k (main_loop_body cs)"

fun envelope_calls :: "nat \<Rightarrow> int16 \<times> state \<Rightarrow> nat" where
  "envelope_calls 0 cs = 0"
| "envelope_calls (Suc k) cs =
     (if envelope_due (fst cs) then 1 else 0) + envelope_calls k (main_loop_body cs)"

subsection \<open>Specification functions\<close>

text \<open>
  The new integrator value of one channel, as \<open>modulate\<close> computes it: resolution \<open>mx\<close>,
  request \<open>r\<close>, integrator \<open>a\<close>.
\<close>

definition ds_sum :: "uint16 \<Rightarrow> uchar \<Rightarrow> uint16 \<Rightarrow> uint16" where
  "ds_sum mx r a = (if a + ucast r < mx then a + ucast r else a + ucast r - mx)"

text \<open>
  The modulator step as the specification words it: each channel on its own, the output
  vector indexed by channel, the channels taken in any given order.
\<close>

definition step_channel :: "nat \<Rightarrow> state \<Rightarrow> state" where
  "step_channel n s =
     (let a = sum_ch s ! n + ucast (req s ! n)
      in if a < max_ch s ! n
         then s\<lparr> sum_ch := (sum_ch s)[n := a], outBits := set_bit n (outBits s) \<rparr>
         else s\<lparr> sum_ch := (sum_ch s)[n := a - max_ch s ! n],
                 outBits := unset_bit n (outBits s) \<rparr>)"

fun step_in_order :: "nat list \<Rightarrow> state \<Rightarrow> state" where
  "step_in_order [] s = s"
| "step_in_order (n # ns) s = step_in_order ns (step_channel n s)"

text \<open>
  The level a channel has at envelope phase \<open>p\<close>, when it starts the cycle at \<open>base\<close>,
  rises by \<open>inc\<close> per call while the phase is in \<open>[up, up + steps)\<close> and falls by
  \<open>inc\<close> per call while it is in \<open>[down, down + steps)\<close>. \<open>done_steps p lo steps\<close>
  is the number of calls already made in the segment that starts at \<open>lo\<close>.
\<close>

definition done_steps :: "int \<Rightarrow> int \<Rightarrow> int \<Rightarrow> int" where
  "done_steps p lo steps = max 0 (min steps (p - lo))"

definition level :: "int \<Rightarrow> int \<Rightarrow> int \<Rightarrow> int \<Rightarrow> int \<Rightarrow> int \<Rightarrow> int" where
  "level base inc steps up down p =
     base + inc * (done_steps p up steps - done_steps p down steps)"

text \<open>The level of channel \<open>n\<close> that belongs to the phase counters of state \<open>s\<close>.\<close>

definition nominal_req :: "state \<Rightarrow> nat \<Rightarrow> int" where
  "nominal_req s n =
     (if n = 0 then level MAX_CH_0_2 INC_CH_0_2 STEPS_CH_0_2
         (4 * STEPS_CH_0_2) (1 * STEPS_CH_0_2) (sint (stCnt_0_2 s))
      else if n = 1 then level 0 INC_CH_0_2 STEPS_CH_0_2
         (0 * STEPS_CH_0_2) (3 * STEPS_CH_0_2) (sint (stCnt_0_2 s))
      else if n = 2 then level 0 INC_CH_0_2 STEPS_CH_0_2
         (2 * STEPS_CH_0_2) (5 * STEPS_CH_0_2) (sint (stCnt_0_2 s))
      else if n = 3 then level MAX_CH_3_5 INC_CH_3_5 STEPS_CH_3_5
         (4 * STEPS_CH_3_5) (1 * STEPS_CH_3_5) (sint (stCnt_3_5 s))
      else if n = 4 then level 0 INC_CH_3_5 STEPS_CH_3_5
         (0 * STEPS_CH_3_5) (3 * STEPS_CH_3_5) (sint (stCnt_3_5 s))
      else if n = 5 then level 0 INC_CH_3_5 STEPS_CH_3_5
         (2 * STEPS_CH_3_5) (5 * STEPS_CH_3_5) (sint (stCnt_3_5 s))
      else if n = 6 then level 0 INC_CH_6_7 STEPS_CH_6_7
         (1 * STEPS_CH_6_7) (3 * STEPS_CH_6_7) (sint (stCnt_6_7 s))
      else if n = 7 then level 0 INC_CH_6_7 STEPS_CH_6_7
         (0 * STEPS_CH_6_7) (2 * STEPS_CH_6_7) (sint (stCnt_6_7 s))
      else if n = 8 then level 0 INC_CH_8_9 STEPS_CH_8_9
         (1 * STEPS_CH_8_9) (3 * STEPS_CH_8_9) (sint (stCnt_8_9 s))
      else level 0 INC_CH_8_9 STEPS_CH_8_9
         (0 * STEPS_CH_8_9) (2 * STEPS_CH_8_9) (sint (stCnt_8_9 s)))"

text \<open>Every phase counter is inside its cycle.\<close>

definition phases_ok :: "state \<Rightarrow> bool" where
  "phases_ok s \<longleftrightarrow>
     0 \<le> sint (stCnt_0_2 s) \<and> sint (stCnt_0_2 s) < 6 * STEPS_CH_0_2 \<and>
     0 \<le> sint (stCnt_3_5 s) \<and> sint (stCnt_3_5 s) < 6 * STEPS_CH_3_5 \<and>
     0 \<le> sint (stCnt_6_7 s) \<and> sint (stCnt_6_7 s) < 4 * STEPS_CH_6_7 \<and>
     0 \<le> sint (stCnt_8_9 s) \<and> sint (stCnt_8_9 s) < 4 * STEPS_CH_8_9"

text \<open>
  The part of the state that the envelope functions read and write: the requests and the
  four phase counters.
\<close>

definition envelope_state :: "state \<Rightarrow> uchar list \<times> int16 \<times> int16 \<times> int16 \<times> int16" where
  "envelope_state s = (req s, stCnt_0_2 s, stCnt_3_5 s, stCnt_6_7 s, stCnt_8_9 s)"

text \<open>
  The invariant of the running program: the arrays have their declared length, the phase
  counters are inside their cycles, the resolutions are the configured ones, every request
  is the nominal level of its channel, and every integrator is below its resolution.
\<close>

definition reachable_inv :: "state \<Rightarrow> bool" where
  "reachable_inv s \<longleftrightarrow>
     arrays_ok s \<and> phases_ok s \<and> max_ch s = max_ch initial_state \<and>
     (\<forall>n\<in>{0..<N_CH}. req s ! n = of_int (nominal_req s n)) \<and>
     (\<forall>n\<in>{0..<N_CH}. sum_ch s ! n < max_ch s ! n)"

subsection \<open>Start-up under another configuration\<close>

text \<open>
  The macros are fixed when the program is compiled. To speak about other configurations,
  the start of \<^verbatim>\<open>main\<close> is written once more with the eight macro values as a parameter:
  the static initialisers, then \<^verbatim>\<open>init_all_CH_arrays\<close>, then the entry of the loop.
  \<^verbatim>\<open>main\<close> has no statement that inspects the configuration and no return before the
  loop, so the result is always \<open>Some\<close> state.
\<close>

record config =
  cfg_MAX_CH_0_2 :: int
  cfg_MAX_CH_3_5 :: int
  cfg_MAX_CH_6_7 :: int
  cfg_MAX_CH_8_9 :: int
  cfg_STEPS_CH_0_2 :: int
  cfg_STEPS_CH_3_5 :: int
  cfg_STEPS_CH_6_7 :: int
  cfg_STEPS_CH_8_9 :: int

definition source_config :: config where
  "source_config =
     \<lparr> cfg_MAX_CH_0_2 = MAX_CH_0_2, cfg_MAX_CH_3_5 = MAX_CH_3_5,
       cfg_MAX_CH_6_7 = MAX_CH_6_7, cfg_MAX_CH_8_9 = MAX_CH_8_9,
       cfg_STEPS_CH_0_2 = STEPS_CH_0_2, cfg_STEPS_CH_3_5 = STEPS_CH_3_5,
       cfg_STEPS_CH_6_7 = STEPS_CH_6_7, cfg_STEPS_CH_8_9 = STEPS_CH_8_9 \<rparr>"

definition power_on_cfg :: "config \<Rightarrow> state" where
  "power_on_cfg cfg =
     \<lparr> max_ch = replicate N_CH 0, req = replicate N_CH 0, sum_ch = replicate N_CH 0,
       outBits = 0,
       stCnt_0_2 = 0,
       stCnt_3_5 = of_int (3 * cfg_STEPS_CH_3_5 cfg),
       stCnt_6_7 = 0,
       stCnt_8_9 = of_int (2 * cfg_STEPS_CH_8_9 cfg) \<rparr>"

definition init_all_CH_arrays_cfg :: "config \<Rightarrow> state \<Rightarrow> state" where
  "init_all_CH_arrays_cfg cfg s =
     s\<lparr> max_ch := (max_ch s)
          [0 := of_int (cfg_MAX_CH_0_2 cfg), 1 := of_int (cfg_MAX_CH_0_2 cfg),
           2 := of_int (cfg_MAX_CH_0_2 cfg),
           3 := of_int (cfg_MAX_CH_3_5 cfg), 4 := of_int (cfg_MAX_CH_3_5 cfg),
           5 := of_int (cfg_MAX_CH_3_5 cfg),
           6 := of_int (cfg_MAX_CH_6_7 cfg), 7 := of_int (cfg_MAX_CH_6_7 cfg),
           8 := of_int (cfg_MAX_CH_8_9 cfg), 9 := of_int (cfg_MAX_CH_8_9 cfg)],
        req := (req s)
          [0 := of_int (cfg_MAX_CH_0_2 cfg), 1 := 0, 2 := 0,
           3 := 0, 4 := of_int (cfg_MAX_CH_3_5 cfg), 5 := of_int (cfg_MAX_CH_3_5 cfg),
           6 := 0, 7 := 0,
           8 := of_int (cfg_MAX_CH_8_9 cfg), 9 := of_int (cfg_MAX_CH_8_9 cfg)] \<rparr>"

definition start_up :: "config \<Rightarrow> state option" where
  "start_up cfg = Some (init_all_CH_arrays_cfg cfg (power_on_cfg cfg))"

text \<open>
  What the specification calls a valid configuration: no resolution is zero, and every
  group's step count divides the resolution of its channels.
\<close>

definition config_valid :: "config \<Rightarrow> bool" where
  "config_valid cfg \<longleftrightarrow>
     cfg_MAX_CH_0_2 cfg \<noteq> 0 \<and> cfg_MAX_CH_3_5 cfg \<noteq> 0 \<and>
     cfg_MAX_CH_6_7 cfg \<noteq> 0 \<and> cfg_MAX_CH_8_9 cfg \<noteq> 0 \<and>
     cfg_STEPS_CH_0_2 cfg dvd cfg_MAX_CH_0_2 cfg \<and>
     cfg_STEPS_CH_3_5 cfg dvd cfg_MAX_CH_3_5 cfg \<and>
     cfg_STEPS_CH_6_7 cfg dvd cfg_MAX_CH_6_7 cfg \<and>
     cfg_STEPS_CH_8_9 cfg dvd cfg_MAX_CH_8_9 cfg"

text \<open>Two configurations that are not valid.\<close>

definition zero_resolution_config :: config where
  "zero_resolution_config = source_config\<lparr> cfg_MAX_CH_6_7 := 0 \<rparr>"

definition uneven_steps_config :: config where
  "uneven_steps_config = source_config\<lparr> cfg_STEPS_CH_0_2 := 60 \<rparr>"

subsection \<open>Example states\<close>

text \<open>
  The state after start-up, and the same state with the request of channel 6
  (resolution 100, integrator 0) set to 25.
\<close>

definition quarter_state :: state where
  "quarter_state = initial_state\<lparr> req := (req initial_state)[6 := 25] \<rparr>"

section \<open>The modulator loop, channel by channel\<close>

lemma shl1_bit: "bit (push_bit 1 (w::16 word)) m \<longleftrightarrow> 0 < m \<and> m < 16 \<and> bit w (m - 1)"
  unfolding bit_push_bit_iff by (auto simp: bit_simps dest: bit_imp_le_length)

lemma shl1_inc_bit:
  "bit (push_bit 1 (w::16 word) + 1) m \<longleftrightarrow> m = 0 \<or> (m < 16 \<and> bit w (m - 1))"
proof -
  have e: "even (push_bit 1 w)" by simp
  have "bit (1 + push_bit 1 w) m \<longleftrightarrow> bit (push_bit 1 w) m \<or> m = 0"
    using e by (rule even_bit_succ_iff)
  then show ?thesis
    unfolding shl1_bit by (auto simp: add.commute)
qed

lemma modulate_bit:
  "bit (outBits (modulate n s)) m \<longleftrightarrow>
     (if m = 0 then sum_ch s ! n + ucast (req s ! n) < max_ch s ! n
      else m < 16 \<and> bit (outBits s) (m - 1))"
proof (cases "sum_ch s ! n + ucast (req s ! n) < max_ch s ! n")
  case True
  then have "outBits (modulate n s) = push_bit 1 (outBits s) + 1"
    by (simp add: modulate_def Let_def)
  with True show ?thesis by (simp only: shl1_inc_bit) simp
next
  case False
  then have "outBits (modulate n s) = push_bit 1 (outBits s)"
    by (simp add: modulate_def Let_def)
  with False show ?thesis by (simp only: shl1_bit) auto
qed

lemma modulate_fields [simp]:
  "max_ch (modulate n s) = max_ch s" "req (modulate n s) = req s"
  "stCnt_0_2 (modulate n s) = stCnt_0_2 s" "stCnt_3_5 (modulate n s) = stCnt_3_5 s"
  "stCnt_6_7 (modulate n s) = stCnt_6_7 s" "stCnt_8_9 (modulate n s) = stCnt_8_9 s"
  "length (sum_ch (modulate n s)) = length (sum_ch s)"
  by (simp_all add: modulate_def Let_def)

lemma modulate_sum:
  "sum_ch (modulate n s) = (sum_ch s)[n := ds_sum (max_ch s ! n) (req s ! n) (sum_ch s ! n)]"
  by (simp add: modulate_def Let_def ds_sum_def)

lemma modulate_from_fields [simp]:
  "max_ch (modulate_from k s) = max_ch s" "req (modulate_from k s) = req s"
  "stCnt_0_2 (modulate_from k s) = stCnt_0_2 s" "stCnt_3_5 (modulate_from k s) = stCnt_3_5 s"
  "stCnt_6_7 (modulate_from k s) = stCnt_6_7 s" "stCnt_8_9 (modulate_from k s) = stCnt_8_9 s"
  "length (sum_ch (modulate_from k s)) = length (sum_ch s)"
  by (induction k arbitrary: s; simp)+

lemma modulate_from_sum:
  "k \<le> length (sum_ch s) \<Longrightarrow>
   sum_ch (modulate_from k s) ! n =
     (if n < k then ds_sum (max_ch s ! n) (req s ! n) (sum_ch s ! n) else sum_ch s ! n)"
proof (induction k arbitrary: s)
  case 0
  then show ?case by simp
next
  case (Suc k)
  then show ?case by (auto simp: modulate_sum less_Suc_eq)
qed

lemma modulate_from_bit:
  "k \<le> length (sum_ch s) \<Longrightarrow>
   bit (outBits (modulate_from k s)) m \<longleftrightarrow>
     (if m < k then m < 16 \<and> sum_ch s ! m + ucast (req s ! m) < max_ch s ! m
      else m < 16 \<and> bit (outBits s) (m - k))"
proof (induction k arbitrary: s)
  case 0
  then show ?case by (auto dest: bit_imp_le_length)
next
  case (Suc k)
  then show ?case by (auto simp: modulate_sum modulate_bit less_Suc_eq)
qed

text \<open>What one call of \<^verbatim>\<open>calc_output_bits\<close> does to channel \<open>n\<close>.\<close>

lemma calc_output_bits_fields [simp]:
  "max_ch (calc_output_bits s) = max_ch s" "req (calc_output_bits s) = req s"
  "stCnt_0_2 (calc_output_bits s) = stCnt_0_2 s" "stCnt_3_5 (calc_output_bits s) = stCnt_3_5 s"
  "stCnt_6_7 (calc_output_bits s) = stCnt_6_7 s" "stCnt_8_9 (calc_output_bits s) = stCnt_8_9 s"
  "length (sum_ch (calc_output_bits s)) = length (sum_ch s)"
  by (simp_all add: calc_output_bits_def)

lemma calc_output_bits_arrays_ok [simp]: "arrays_ok (calc_output_bits s) = arrays_ok s"
  by (simp add: arrays_ok_def)

lemma calc_output_bits_sum:
  assumes "arrays_ok s" and "n < N_CH"
  shows "sum_ch (calc_output_bits s) ! n = ds_sum (max_ch s ! n) (req s ! n) (sum_ch s ! n)"
  using assms by (simp add: calc_output_bits_def arrays_ok_def modulate_from_sum)

lemma calc_output_bits_bit:
  assumes "arrays_ok s" and "n < N_CH"
  shows "bit (outBits (calc_output_bits s)) n \<longleftrightarrow>
           sum_ch s ! n + ucast (req s ! n) < max_ch s ! n"
  using assms by (simp add: calc_output_bits_def arrays_ok_def modulate_from_bit N_CH_def)

section \<open>One channel over a window of calls\<close>

text \<open>One call, read in natural numbers: the 16-bit sum does not wrap.\<close>

lemma ds_sum_unat:
  assumes "a < mx" and "unat r \<le> unat mx" and "unat mx \<le> 65281"
  shows "unat (ds_sum mx r a) =
     (if unat a + unat r < unat mx then unat a + unat r else unat a + unat r - unat mx)"
    and "(a + ucast r < mx) = (unat a + unat r < unat mx)"
proof -
  have r: "unat r < 256" using unsigned_less [of r, where 'a = nat] by simp
  have a: "unat a < unat mx" using assms(1) by (simp add: word_less_nat_alt)
  have ur: "unat (ucast r :: 16 word) = unat r"
    by (simp add: unsigned_ucast_eq take_bit_nat_eq_self_iff r [simplified] less_trans [OF r])
  have s: "unat (a + ucast r) = unat a + unat r"
    using a r assms(3) ur by (simp add: unat_word_ariths)
  show c: "(a + ucast r < mx) = (unat a + unat r < unat mx)"
    by (simp add: word_less_nat_alt s)
  show "unat (ds_sum mx r a) =
     (if unat a + unat r < unat mx then unat a + unat r else unat a + unat r - unat mx)"
  proof (cases "a + ucast r < mx")
    case True
    then show ?thesis using c s by (simp add: ds_sum_def)
  next
    case False
    then have "mx \<le> a + ucast r" by simp
    then have "unat (a + ucast r - mx) = unat (a + ucast r) - unat mx"
      by (rule unat_sub)
    then show ?thesis using False c s by (simp add: ds_sum_def)
  qed
qed

lemma ds_sum_less:
  assumes "a < mx" and "unat r \<le> unat mx" and "unat mx \<le> 65281"
  shows "ds_sum mx r a < mx"
proof -
  have a: "unat a < unat mx" using assms(1) by (simp add: word_less_nat_alt)
  have "unat (ds_sum mx r a) < unat mx"
    using ds_sum_unat(1) [OF assms] a assms(2) by (simp split: if_splits)
  then show ?thesis by (simp add: word_less_nat_alt)
qed


lemma run_steps_fields [simp]:
  "max_ch (run_steps k s) = max_ch s" "req (run_steps k s) = req s"
  "arrays_ok (run_steps k s) = arrays_ok s"
  by (induction k arbitrary: s; simp)+

lemma count_ones_zeros: "count_ones n k s + count_zeros n k s = k"
  by (induction k arbitrary: s) auto

lemma window_balance:
  assumes "arrays_ok s" and "n < N_CH" and "sum_ch s ! n < max_ch s ! n"
    and "unat (req s ! n) \<le> unat (max_ch s ! n)" and "unat (max_ch s ! n) \<le> 65281"
  shows "sum_ch (run_steps k s) ! n < max_ch s ! n \<and>
     unat (sum_ch s ! n) + k * unat (req s ! n) =
       unat (sum_ch (run_steps k s) ! n) + unat (max_ch s ! n) * count_zeros n k s"
  using assms
proof (induction k arbitrary: s)
  case 0
  then show ?case by simp
next
  case (Suc k)
  let ?t = "calc_output_bits s"
  let ?mx = "max_ch s ! n" and ?r = "req s ! n" and ?a = "sum_ch s ! n"
  have t_sum: "sum_ch ?t ! n = ds_sum ?mx ?r ?a"
    using Suc.prems by (simp add: calc_output_bits_sum)
  have t_bit: "bit (outBits ?t) n \<longleftrightarrow> unat ?a + unat ?r < unat ?mx"
    using Suc.prems by (simp add: calc_output_bits_bit ds_sum_unat(2))
  have t_less: "sum_ch ?t ! n < max_ch ?t ! n"
    using Suc.prems by (simp add: t_sum ds_sum_less)
  have t_unat: "unat (sum_ch ?t ! n) =
      (if unat ?a + unat ?r < unat ?mx then unat ?a + unat ?r else unat ?a + unat ?r - unat ?mx)"
    using Suc.prems by (simp add: t_sum ds_sum_unat(1))
  have ih: "sum_ch (run_steps k ?t) ! n < ?mx \<and>
     unat (sum_ch ?t ! n) + k * unat ?r =
       unat (sum_ch (run_steps k ?t) ! n) + unat ?mx * count_zeros n k ?t"
    using Suc.IH [of ?t] Suc.prems t_less by simp
  show ?case
  proof (cases "unat ?a + unat ?r < unat ?mx")
    case True
    then show ?thesis using ih t_bit t_unat by simp
  next
    case False
    then have "unat ?a + unat ?r = unat (sum_ch ?t ! n) + unat ?mx"
      using t_unat by simp
    then show ?thesis using False ih t_bit by (simp add: algebra_simps)
  qed
qed

lemma window_exact:
  assumes "arrays_ok s" and "n < N_CH" and "sum_ch s ! n < max_ch s ! n"
    and "unat (req s ! n) \<le> unat (max_ch s ! n)" and "unat (max_ch s ! n) \<le> 65281"
  shows "sum_ch (run_steps (unat (max_ch s ! n)) s) ! n = sum_ch s ! n"
    and "count_zeros n (unat (max_ch s ! n)) s = unat (req s ! n)"
    and "count_ones n (unat (max_ch s ! n)) s = unat (max_ch s ! n) - unat (req s ! n)"
proof -
  let ?R = "unat (max_ch s ! n)" and ?r = "unat (req s ! n)" and ?a = "unat (sum_ch s ! n)"
  let ?b = "unat (sum_ch (run_steps ?R s) ! n)" and ?z = "count_zeros n ?R s"
  have a: "?a < ?R" using assms(3) by (simp add: word_less_nat_alt)
  have bal: "sum_ch (run_steps ?R s) ! n < max_ch s ! n \<and> ?a + ?R * ?r = ?b + ?R * ?z"
    using window_balance [OF assms, of ?R] by simp
  then have b: "?b < ?R" by (simp add: word_less_nat_alt)
  have "(?a + ?R * ?r) mod ?R = (?b + ?R * ?z) mod ?R" using bal by simp
  then have ab: "?a = ?b" using a b by simp
  then show "sum_ch (run_steps ?R s) ! n = sum_ch s ! n"
    by (simp add: word_unat_eq_iff)
  have "?R * ?r = ?R * ?z" using bal ab by simp
  then show z: "?z = ?r" using a by simp
  show "count_ones n ?R s = ?R - ?r"
    using count_ones_zeros [of n ?R s] z by simp
qed


text \<open>The state after start-up, written out.\<close>

lemma initial_state_eq:
  "initial_state =
     \<lparr> max_ch = [200, 200, 200, 200, 200, 200, 100, 100, 150, 150],
       req = [200, 0, 0, 0, 200, 200, 0, 0, 150, 150],
       sum_ch = [0, 0, 0, 0, 0, 0, 0, 0, 0, 0],
       outBits = 0, stCnt_0_2 = 0, stCnt_3_5 = 300, stCnt_6_7 = 0, stCnt_8_9 = 300 \<rparr>"
  by (simp add: initial_state_def init_all_CH_arrays_def power_on_def N_CH_def
      MAX_CH_0_2_def MAX_CH_3_5_def MAX_CH_6_7_def MAX_CH_8_9_def
      STEPS_CH_3_5_def STEPS_CH_8_9_def numeral_eq_Suc)

lemma quarter_state_eq:
  "quarter_state =
     \<lparr> max_ch = [200, 200, 200, 200, 200, 200, 100, 100, 150, 150],
       req = [200, 0, 0, 0, 200, 200, 25, 0, 150, 150],
       sum_ch = [0, 0, 0, 0, 0, 0, 0, 0, 0, 0],
       outBits = 0, stCnt_0_2 = 0, stCnt_3_5 = 300, stCnt_6_7 = 0, stCnt_8_9 = 300 \<rparr>"
  by (simp add: quarter_state_def initial_state_eq)

lemma run_steps_add: "run_steps (j + k) s = run_steps k (run_steps j s)"
  by (induction j arbitrary: s) simp_all


lemma quarter_state_ch6:
  "arrays_ok quarter_state" "max_ch quarter_state ! 6 = 100" "req quarter_state ! 6 = 25"
  "sum_ch quarter_state ! 6 = 0"
  by (simp_all add: quarter_state_eq arrays_ok_def N_CH_def)

text \<open>
  C3. With the request of a channel held at \<open>r \<le> resolution\<close> and its integrator
  started at 0, every window of \<open>resolution\<close> consecutive calls of
  \<^verbatim>\<open>calc_output_bits\<close> (the window that starts after any number \<open>j\<close> of earlier
  calls) gives the channel exactly \<open>resolution - r\<close> output bits 1 and exactly \<open>r\<close>
  output bits 0, and leaves the integrator where it was at the start of the window; the
  window that starts at integrator 0 ends at integrator 0.
\<close>

theorem complement_density:
  assumes "arrays_ok s" and "n < N_CH"
    and "sum_ch s ! n = 0" and "0 < max_ch s ! n"
    and "unat (req s ! n) \<le> unat (max_ch s ! n)" and "unat (max_ch s ! n) \<le> 65281"
  shows "count_ones n (unat (max_ch s ! n)) (run_steps j s)
           = unat (max_ch s ! n) - unat (req s ! n)
       \<and> count_zeros n (unat (max_ch s ! n)) (run_steps j s) = unat (req s ! n)
       \<and> sum_ch (run_steps (j + unat (max_ch s ! n)) s) ! n = sum_ch (run_steps j s) ! n
       \<and> sum_ch (run_steps (unat (max_ch s ! n)) s) ! n = 0"
proof -
  let ?t = "run_steps j s"
  have start: "sum_ch s ! n < max_ch s ! n" using assms(3,4) by simp
  have t: "arrays_ok ?t" "sum_ch ?t ! n < max_ch ?t ! n"
    "unat (req ?t ! n) \<le> unat (max_ch ?t ! n)" "unat (max_ch ?t ! n) \<le> 65281"
    using assms window_balance [OF assms(1,2) start assms(5,6), of j] by simp_all
  note w = window_exact [OF t(1) assms(2) t(2,3,4)]
  note w0 = window_exact(1) [OF assms(1,2) start assms(5,6)]
  show ?thesis using w w0 assms(3) by (simp add: run_steps_add)
qed

theorem complement_density_witness:
  "count_ones 6 100 (run_steps 3 quarter_state) = 75
     \<and> count_zeros 6 100 (run_steps 3 quarter_state) = 25
     \<and> sum_ch (run_steps 103 quarter_state) ! 6 = sum_ch (run_steps 3 quarter_state) ! 6
     \<and> sum_ch (run_steps 100 quarter_state) ! 6 = 0"
  using complement_density [of quarter_state 6 3]
  by (simp add: quarter_state_ch6 N_CH_def)

text \<open>
  C1 as stated fails. With resolution 100, request 25 and integrator 0, 75 of the 100
  output bits are 1, not 25; and in the start-up state itself, where channel 0 has
  resolution 200 and request 200, none of the 200 output bits is 1.
\<close>

theorem duty_cycle_counterexample:
  "max_ch quarter_state ! 6 = 100 \<and> req quarter_state ! 6 = 25
     \<and> sum_ch quarter_state ! 6 = 0
     \<and> count_ones 6 100 quarter_state = 75
     \<and> count_ones 6 100 quarter_state \<noteq> unat (req quarter_state ! 6)
     \<and> max_ch initial_state ! 0 = 200 \<and> req initial_state ! 0 = 200
     \<and> sum_ch initial_state ! 0 = 0
     \<and> count_ones 0 200 initial_state = 0
     \<and> count_ones 0 200 initial_state \<noteq> unat (req initial_state ! 0)"
proof -
  have "count_ones 6 (unat (max_ch quarter_state ! 6)) quarter_state
          = unat (max_ch quarter_state ! 6) - unat (req quarter_state ! 6)"
    by (rule window_exact(3)) (simp_all add: quarter_state_ch6 N_CH_def)
  then have q: "count_ones 6 100 quarter_state = 75" by (simp add: quarter_state_ch6)
  have i: "arrays_ok initial_state" "max_ch initial_state ! 0 = 200"
    "req initial_state ! 0 = 200" "sum_ch initial_state ! 0 = 0"
    by (simp_all add: initial_state_eq arrays_ok_def N_CH_def)
  have "count_ones 0 (unat (max_ch initial_state ! 0)) initial_state
          = unat (max_ch initial_state ! 0) - unat (req initial_state ! 0)"
    by (rule window_exact(3)) (simp_all add: i N_CH_def)
  then have z: "count_ones 0 200 initial_state = 0" by (simp add: i)
  show ?thesis using q z by (simp add: quarter_state_ch6 i)
qed

text \<open>
  C1, amended. With the request of a channel held at \<open>r \<le> resolution\<close>, a window of
  \<open>resolution\<close> consecutive calls that starts with the integrator below the resolution
  (as it is at 0, and after every call) gives the channel exactly \<open>resolution - r\<close>
  output bits 1 and exactly \<open>r\<close> output bits 0, and returns the integrator to the
  value it had at the start of the window.
\<close>

theorem duty_cycle_amended:
  assumes "arrays_ok s" and "n < N_CH" and "sum_ch s ! n < max_ch s ! n"
    and "unat (req s ! n) \<le> unat (max_ch s ! n)" and "unat (max_ch s ! n) \<le> 65281"
  shows "count_ones n (unat (max_ch s ! n)) s = unat (max_ch s ! n) - unat (req s ! n)
       \<and> count_zeros n (unat (max_ch s ! n)) s = unat (req s ! n)
       \<and> sum_ch (run_steps (unat (max_ch s ! n)) s) ! n = sum_ch s ! n"
  using window_exact [OF assms] by simp

theorem duty_cycle_amended_witness:
  "count_ones 6 100 quarter_state = 75 \<and> count_zeros 6 100 quarter_state = 25
     \<and> sum_ch (run_steps 100 quarter_state) ! 6 = 0"
  using duty_cycle_amended [of quarter_state 6]
  by (simp add: quarter_state_ch6 N_CH_def)


section \<open>The envelope functions and the nominal levels\<close>

text \<open>
  A call changes each request by exactly the amount by which the nominal level of its
  channel changes, so the difference between the two is constant, whatever the requests
  were at the start.
\<close>

lemma sint_succ:
  fixes c :: "16 word"
  assumes "sint c < 32767"
  shows "sint (c + 1) = sint c + 1"
proof -
  have lo: "- 32768 \<le> sint c" using sint_ge [of c] by simp
  have "sint (c + 1) = signed_take_bit 15 (sint c + 1)"
    by (simp add: sint_word_ariths)
  also have "\<dots> = sint c + 1"
    using lo assms by (simp add: signed_take_bit_int_eq_self)
  finally show ?thesis .
qed

lemma sint_next_stCnt:
  assumes "0 \<le> sint c" and "sint c < P" and "P \<le> 32767"
  shows "sint (next_stCnt c P) = (if P \<le> sint c + 1 then 0 else sint c + 1)"
  using assms by (simp add: next_stCnt_def sint_succ)

lemma done_steps_next:
  assumes "0 \<le> S"
  shows "done_steps (p + 1) lo S = done_steps p lo S + (if lo \<le> p \<and> p < lo + S then 1 else 0)"
  using assms by (auto simp: done_steps_def)

lemma done_steps_ends:
  assumes "0 \<le> S" and "0 \<le> lo" and "lo + S \<le> P"
  shows "done_steps 0 lo S = 0" and "done_steps P lo S = S"
  using assms by (auto simp: done_steps_def)

lemma level_next:
  assumes "0 \<le> S" and "0 \<le> u" and "u + S \<le> P" and "0 \<le> d" and "d + S \<le> P"
    and "0 \<le> p" and "p < P"
  shows "level b inc S u d (if P \<le> p + 1 then 0 else p + 1)
       = level b inc S u d p
         + inc * ((if u \<le> p \<and> p < u + S then 1 else 0) - (if d \<le> p \<and> p < d + S then 1 else 0))"
proof -
  let ?q = "if P \<le> p + 1 then 0 else p + 1"
  have wrap: "done_steps ?q u S - done_steps ?q d S
      = done_steps (p + 1) u S - done_steps (p + 1) d S"
  proof (cases "P \<le> p + 1")
    case True
    then have "p + 1 = P" using assms(7) by simp
    then show ?thesis
      using True done_steps_ends [OF assms(1,2,3)] done_steps_ends [OF assms(1,4,5)] by simp
  next
    case False
    then show ?thesis by simp
  qed
  have "done_steps ?q u S - done_steps ?q d S
      = (done_steps p u S - done_steps p d S)
        + ((if u \<le> p \<and> p < u + S then 1 else 0) - (if d \<le> p \<and> p < d + S then 1 else 0))"
    unfolding wrap done_steps_next [OF assms(1)] by simp
  then show ?thesis
    unfolding level_def by (simp only: distrib_left add.assoc)
qed

lemma adjust_length [simp]: "length (adjust c lo hi i d r) = length r"
  by (simp add: adjust_def)

lemma adjust_nth:
  "i < length r \<Longrightarrow>
   adjust c lo hi i d r ! n =
     (if lo \<le> sint c \<and> sint c < hi \<and> n = i then r ! n + of_int d else r ! n)"
  by (auto simp: adjust_def nth_list_update)


lemmas macro_defs =
  MAX_CH_0_2_def MAX_CH_3_5_def MAX_CH_6_7_def MAX_CH_8_9_def
  STEPS_CH_0_2_def STEPS_CH_3_5_def STEPS_CH_6_7_def STEPS_CH_8_9_def
  INC_CH_0_2_def INC_CH_3_5_def INC_CH_6_7_def INC_CH_8_9_def

lemma level_next_stCnt:
  assumes "0 \<le> sint c" and "sint c < P" and "P \<le> 32767"
    and "0 \<le> S" and "0 \<le> u" and "u + S \<le> P" and "0 \<le> d" and "d + S \<le> P"
  shows "level b inc S u d (sint (next_stCnt c P))
       = level b inc S u d (sint c)
         + inc * ((if u \<le> sint c \<and> sint c < u + S then 1 else 0)
                  - (if d \<le> sint c \<and> sint c < d + S then 1 else 0))"
  unfolding sint_next_stCnt [OF assms(1,2,3)]
  using level_next [OF assms(4,5,6,7,8) assms(1,2)] .

lemma phase_next_stCnt:
  assumes "0 \<le> sint c" and "sint c < P" and "P \<le> 32767"
  shows "sint (next_stCnt c P) = (sint c + 1) mod P"
proof (cases "P \<le> sint c + 1")
  case True
  then have "sint c + 1 = P" using assms(2) by simp
  then have "(sint c + 1) mod P = 0" by simp
  then show ?thesis using True assms by (simp only: sint_next_stCnt if_True)
next
  case False
  then show ?thesis using assms by (simp add: sint_next_stCnt)
qed


subsection \<open>\<^verbatim>\<open>calc_CH_0_TO_2\<close>\<close>

lemma calc_CH_0_TO_2_fields [simp]:
  "max_ch (calc_CH_0_TO_2 s) = max_ch s" "sum_ch (calc_CH_0_TO_2 s) = sum_ch s"
  "outBits (calc_CH_0_TO_2 s) = outBits s"
  "stCnt_3_5 (calc_CH_0_TO_2 s) = stCnt_3_5 s" "stCnt_6_7 (calc_CH_0_TO_2 s) = stCnt_6_7 s" "stCnt_8_9 (calc_CH_0_TO_2 s) = stCnt_8_9 s"
  "length (req (calc_CH_0_TO_2 s)) = length (req s)"
  "stCnt_0_2 (calc_CH_0_TO_2 s) = next_stCnt (stCnt_0_2 s) (6 * STEPS_CH_0_2)"
  by (simp_all add: calc_CH_0_TO_2_def Let_def)

lemma calc_CH_0_TO_2_offset:
  assumes "length (req s) = N_CH" and "n < N_CH"
    and "0 \<le> sint (stCnt_0_2 s)" and "sint (stCnt_0_2 s) < 6 * STEPS_CH_0_2"
  shows "req (calc_CH_0_TO_2 s) ! n - of_int (nominal_req (calc_CH_0_TO_2 s) n)
       = req s ! n - of_int (nominal_req s n)"
  using assms
  by (simp add: nominal_req_def calc_CH_0_TO_2_def Let_def adjust_nth N_CH_def macro_defs
      level_next_stCnt)

lemma calc_CH_0_TO_2_phase:
  assumes "0 \<le> sint (stCnt_0_2 s)" and "sint (stCnt_0_2 s) < 6 * STEPS_CH_0_2"
  shows "sint (stCnt_0_2 (calc_CH_0_TO_2 s))
       = (sint (stCnt_0_2 s) + 1) mod (6 * STEPS_CH_0_2)"
  using assms by (simp add: phase_next_stCnt macro_defs)

subsection \<open>\<^verbatim>\<open>calc_CH_3_TO_5\<close>\<close>

lemma calc_CH_3_TO_5_fields [simp]:
  "max_ch (calc_CH_3_TO_5 s) = max_ch s" "sum_ch (calc_CH_3_TO_5 s) = sum_ch s"
  "outBits (calc_CH_3_TO_5 s) = outBits s"
  "stCnt_0_2 (calc_CH_3_TO_5 s) = stCnt_0_2 s" "stCnt_6_7 (calc_CH_3_TO_5 s) = stCnt_6_7 s" "stCnt_8_9 (calc_CH_3_TO_5 s) = stCnt_8_9 s"
  "length (req (calc_CH_3_TO_5 s)) = length (req s)"
  "stCnt_3_5 (calc_CH_3_TO_5 s) = next_stCnt (stCnt_3_5 s) (6 * STEPS_CH_3_5)"
  by (simp_all add: calc_CH_3_TO_5_def Let_def)

lemma calc_CH_3_TO_5_offset:
  assumes "length (req s) = N_CH" and "n < N_CH"
    and "0 \<le> sint (stCnt_3_5 s)" and "sint (stCnt_3_5 s) < 6 * STEPS_CH_3_5"
  shows "req (calc_CH_3_TO_5 s) ! n - of_int (nominal_req (calc_CH_3_TO_5 s) n)
       = req s ! n - of_int (nominal_req s n)"
  using assms
  by (simp add: nominal_req_def calc_CH_3_TO_5_def Let_def adjust_nth N_CH_def macro_defs
      level_next_stCnt)

lemma calc_CH_3_TO_5_phase:
  assumes "0 \<le> sint (stCnt_3_5 s)" and "sint (stCnt_3_5 s) < 6 * STEPS_CH_3_5"
  shows "sint (stCnt_3_5 (calc_CH_3_TO_5 s))
       = (sint (stCnt_3_5 s) + 1) mod (6 * STEPS_CH_3_5)"
  using assms by (simp add: phase_next_stCnt macro_defs)

subsection \<open>\<^verbatim>\<open>calc_CH_6_TO_7\<close>\<close>

lemma calc_CH_6_TO_7_fields [simp]:
  "max_ch (calc_CH_6_TO_7 s) = max_ch s" "sum_ch (calc_CH_6_TO_7 s) = sum_ch s"
  "outBits (calc_CH_6_TO_7 s) = outBits s"
  "stCnt_0_2 (calc_CH_6_TO_7 s) = stCnt_0_2 s" "stCnt_3_5 (calc_CH_6_TO_7 s) = stCnt_3_5 s" "stCnt_8_9 (calc_CH_6_TO_7 s) = stCnt_8_9 s"
  "length (req (calc_CH_6_TO_7 s)) = length (req s)"
  "stCnt_6_7 (calc_CH_6_TO_7 s) = next_stCnt (stCnt_6_7 s) (4 * STEPS_CH_6_7)"
  by (simp_all add: calc_CH_6_TO_7_def Let_def)

lemma calc_CH_6_TO_7_offset:
  assumes "length (req s) = N_CH" and "n < N_CH"
    and "0 \<le> sint (stCnt_6_7 s)" and "sint (stCnt_6_7 s) < 4 * STEPS_CH_6_7"
  shows "req (calc_CH_6_TO_7 s) ! n - of_int (nominal_req (calc_CH_6_TO_7 s) n)
       = req s ! n - of_int (nominal_req s n)"
  using assms
  by (simp add: nominal_req_def calc_CH_6_TO_7_def Let_def adjust_nth N_CH_def macro_defs
      level_next_stCnt)

lemma calc_CH_6_TO_7_phase:
  assumes "0 \<le> sint (stCnt_6_7 s)" and "sint (stCnt_6_7 s) < 4 * STEPS_CH_6_7"
  shows "sint (stCnt_6_7 (calc_CH_6_TO_7 s))
       = (sint (stCnt_6_7 s) + 1) mod (4 * STEPS_CH_6_7)"
  using assms by (simp add: phase_next_stCnt macro_defs)

subsection \<open>\<^verbatim>\<open>calc_CH_8_TO_9\<close>\<close>

lemma calc_CH_8_TO_9_fields [simp]:
  "max_ch (calc_CH_8_TO_9 s) = max_ch s" "sum_ch (calc_CH_8_TO_9 s) = sum_ch s"
  "outBits (calc_CH_8_TO_9 s) = outBits s"
  "stCnt_0_2 (calc_CH_8_TO_9 s) = stCnt_0_2 s" "stCnt_3_5 (calc_CH_8_TO_9 s) = stCnt_3_5 s" "stCnt_6_7 (calc_CH_8_TO_9 s) = stCnt_6_7 s"
  "length (req (calc_CH_8_TO_9 s)) = length (req s)"
  "stCnt_8_9 (calc_CH_8_TO_9 s) = next_stCnt (stCnt_8_9 s) (4 * STEPS_CH_8_9)"
  by (simp_all add: calc_CH_8_TO_9_def Let_def)

lemma calc_CH_8_TO_9_offset:
  assumes "length (req s) = N_CH" and "n < N_CH"
    and "0 \<le> sint (stCnt_8_9 s)" and "sint (stCnt_8_9 s) < 4 * STEPS_CH_8_9"
  shows "req (calc_CH_8_TO_9 s) ! n - of_int (nominal_req (calc_CH_8_TO_9 s) n)
       = req s ! n - of_int (nominal_req s n)"
  using assms
  by (simp add: nominal_req_def calc_CH_8_TO_9_def Let_def adjust_nth N_CH_def macro_defs
      level_next_stCnt)

lemma calc_CH_8_TO_9_phase:
  assumes "0 \<le> sint (stCnt_8_9 s)" and "sint (stCnt_8_9 s) < 4 * STEPS_CH_8_9"
  shows "sint (stCnt_8_9 (calc_CH_8_TO_9 s))
       = (sint (stCnt_8_9 s) + 1) mod (4 * STEPS_CH_8_9)"
  using assms by (simp add: phase_next_stCnt macro_defs)


subsection \<open>A full cycle of calls\<close>

lemma nominal_req_cong:
  assumes "stCnt_0_2 t = stCnt_0_2 s" and "stCnt_3_5 t = stCnt_3_5 s"
    and "stCnt_6_7 t = stCnt_6_7 s" and "stCnt_8_9 t = stCnt_8_9 s"
  shows "nominal_req t n = nominal_req s n"
  by (simp add: nominal_req_def assms)

lemma state_eqI:
  fixes s t :: state
  assumes "max_ch t = max_ch s" and "sum_ch t = sum_ch s" and "outBits t = outBits s"
    and "sint (stCnt_0_2 t) = sint (stCnt_0_2 s)" and "sint (stCnt_3_5 t) = sint (stCnt_3_5 s)"
    and "sint (stCnt_6_7 t) = sint (stCnt_6_7 s)" and "sint (stCnt_8_9 t) = sint (stCnt_8_9 s)"
    and "length (req t) = N_CH" and "length (req s) = N_CH"
    and "\<And>n. n < N_CH \<Longrightarrow>
           req t ! n - of_int (nominal_req t n) = req s ! n - of_int (nominal_req s n)"
  shows "t = s"
proof -
  have c: "stCnt_0_2 t = stCnt_0_2 s" "stCnt_3_5 t = stCnt_3_5 s"
    "stCnt_6_7 t = stCnt_6_7 s" "stCnt_8_9 t = stCnt_8_9 s"
    using assms(4-7) by (simp_all add: word_eq_iff_signed [where 'a = int])
  have "req t ! n = req s ! n" if "n < N_CH" for n
    using assms(10) [OF that] nominal_req_cong [OF c, of n] by simp
  then have "req t = req s"
    using assms(8,9) by (simp add: nth_equalityI)
  then show ?thesis using assms(1-3) c by simp
qed

lemma repeat_calc_CH_0_TO_2:
  assumes "length (req s) = N_CH"
    and "0 \<le> sint (stCnt_0_2 s)" and "sint (stCnt_0_2 s) < 6 * STEPS_CH_0_2"
  shows "max_ch (repeat k calc_CH_0_TO_2 s) = max_ch s
       \<and> sum_ch (repeat k calc_CH_0_TO_2 s) = sum_ch s
       \<and> outBits (repeat k calc_CH_0_TO_2 s) = outBits s
       \<and> stCnt_3_5 (repeat k calc_CH_0_TO_2 s) = stCnt_3_5 s
       \<and> stCnt_6_7 (repeat k calc_CH_0_TO_2 s) = stCnt_6_7 s
       \<and> stCnt_8_9 (repeat k calc_CH_0_TO_2 s) = stCnt_8_9 s
       \<and> length (req (repeat k calc_CH_0_TO_2 s)) = N_CH
       \<and> sint (stCnt_0_2 (repeat k calc_CH_0_TO_2 s))
           = (sint (stCnt_0_2 s) + int k) mod (6 * STEPS_CH_0_2)
       \<and> (\<forall>n<N_CH. req (repeat k calc_CH_0_TO_2 s) ! n
                     - of_int (nominal_req (repeat k calc_CH_0_TO_2 s) n)
                   = req s ! n - of_int (nominal_req s n))"
  using assms
proof (induction k arbitrary: s)
  case 0
  then show ?case by simp
next
  case (Suc k)
  let ?t = "calc_CH_0_TO_2 s"
  have ph: "sint (stCnt_0_2 ?t) = (sint (stCnt_0_2 s) + 1) mod (6 * STEPS_CH_0_2)"
    using Suc.prems by (simp only: calc_CH_0_TO_2_phase)
  have pos: "0 < 6 * STEPS_CH_0_2" by (simp add: macro_defs)
  have t: "length (req ?t) = N_CH" "0 \<le> sint (stCnt_0_2 ?t)"
    "sint (stCnt_0_2 ?t) < 6 * STEPS_CH_0_2"
    using Suc.prems(1) pos unfolding ph by simp_all
  have m: "(sint (stCnt_0_2 ?t) + int k) mod (6 * STEPS_CH_0_2)
         = (sint (stCnt_0_2 s) + int (Suc k)) mod (6 * STEPS_CH_0_2)"
    unfolding ph by (simp add: mod_add_left_eq add.assoc)
  have off: "req ?t ! n - of_int (nominal_req ?t n) = req s ! n - of_int (nominal_req s n)"
    if "n < N_CH" for n
    using calc_CH_0_TO_2_offset [OF Suc.prems(1) that Suc.prems(2,3)] .
  show ?case
    using Suc.IH [OF t] m off by simp
qed

lemma calc_CH_0_TO_2_cycle:
  assumes "length (req s) = N_CH"
    and "0 \<le> sint (stCnt_0_2 s)" and "sint (stCnt_0_2 s) < 6 * STEPS_CH_0_2"
  shows "repeat (nat (6 * STEPS_CH_0_2)) calc_CH_0_TO_2 s = s"
proof -
  note r = repeat_calc_CH_0_TO_2 [OF assms, of "nat (6 * STEPS_CH_0_2)"]
  have pos: "0 \<le> 6 * STEPS_CH_0_2" by (simp add: macro_defs)
  have "(sint (stCnt_0_2 s) + int (nat (6 * STEPS_CH_0_2))) mod (6 * STEPS_CH_0_2)
      = sint (stCnt_0_2 s)"
    using assms(2,3) pos by simp
  then show ?thesis
    using r assms(1) by (intro state_eqI) simp_all
qed

lemma repeat_calc_CH_3_TO_5:
  assumes "length (req s) = N_CH"
    and "0 \<le> sint (stCnt_3_5 s)" and "sint (stCnt_3_5 s) < 6 * STEPS_CH_3_5"
  shows "max_ch (repeat k calc_CH_3_TO_5 s) = max_ch s
       \<and> sum_ch (repeat k calc_CH_3_TO_5 s) = sum_ch s
       \<and> outBits (repeat k calc_CH_3_TO_5 s) = outBits s
       \<and> stCnt_0_2 (repeat k calc_CH_3_TO_5 s) = stCnt_0_2 s
       \<and> stCnt_6_7 (repeat k calc_CH_3_TO_5 s) = stCnt_6_7 s
       \<and> stCnt_8_9 (repeat k calc_CH_3_TO_5 s) = stCnt_8_9 s
       \<and> length (req (repeat k calc_CH_3_TO_5 s)) = N_CH
       \<and> sint (stCnt_3_5 (repeat k calc_CH_3_TO_5 s))
           = (sint (stCnt_3_5 s) + int k) mod (6 * STEPS_CH_3_5)
       \<and> (\<forall>n<N_CH. req (repeat k calc_CH_3_TO_5 s) ! n
                     - of_int (nominal_req (repeat k calc_CH_3_TO_5 s) n)
                   = req s ! n - of_int (nominal_req s n))"
  using assms
proof (induction k arbitrary: s)
  case 0
  then show ?case by simp
next
  case (Suc k)
  let ?t = "calc_CH_3_TO_5 s"
  have ph: "sint (stCnt_3_5 ?t) = (sint (stCnt_3_5 s) + 1) mod (6 * STEPS_CH_3_5)"
    using Suc.prems by (simp only: calc_CH_3_TO_5_phase)
  have pos: "0 < 6 * STEPS_CH_3_5" by (simp add: macro_defs)
  have t: "length (req ?t) = N_CH" "0 \<le> sint (stCnt_3_5 ?t)"
    "sint (stCnt_3_5 ?t) < 6 * STEPS_CH_3_5"
    using Suc.prems(1) pos unfolding ph by simp_all
  have m: "(sint (stCnt_3_5 ?t) + int k) mod (6 * STEPS_CH_3_5)
         = (sint (stCnt_3_5 s) + int (Suc k)) mod (6 * STEPS_CH_3_5)"
    unfolding ph by (simp add: mod_add_left_eq add.assoc)
  have off: "req ?t ! n - of_int (nominal_req ?t n) = req s ! n - of_int (nominal_req s n)"
    if "n < N_CH" for n
    using calc_CH_3_TO_5_offset [OF Suc.prems(1) that Suc.prems(2,3)] .
  show ?case
    using Suc.IH [OF t] m off by simp
qed

lemma calc_CH_3_TO_5_cycle:
  assumes "length (req s) = N_CH"
    and "0 \<le> sint (stCnt_3_5 s)" and "sint (stCnt_3_5 s) < 6 * STEPS_CH_3_5"
  shows "repeat (nat (6 * STEPS_CH_3_5)) calc_CH_3_TO_5 s = s"
proof -
  note r = repeat_calc_CH_3_TO_5 [OF assms, of "nat (6 * STEPS_CH_3_5)"]
  have pos: "0 \<le> 6 * STEPS_CH_3_5" by (simp add: macro_defs)
  have "(sint (stCnt_3_5 s) + int (nat (6 * STEPS_CH_3_5))) mod (6 * STEPS_CH_3_5)
      = sint (stCnt_3_5 s)"
    using assms(2,3) pos by simp
  then show ?thesis
    using r assms(1) by (intro state_eqI) simp_all
qed

lemma repeat_calc_CH_6_TO_7:
  assumes "length (req s) = N_CH"
    and "0 \<le> sint (stCnt_6_7 s)" and "sint (stCnt_6_7 s) < 4 * STEPS_CH_6_7"
  shows "max_ch (repeat k calc_CH_6_TO_7 s) = max_ch s
       \<and> sum_ch (repeat k calc_CH_6_TO_7 s) = sum_ch s
       \<and> outBits (repeat k calc_CH_6_TO_7 s) = outBits s
       \<and> stCnt_0_2 (repeat k calc_CH_6_TO_7 s) = stCnt_0_2 s
       \<and> stCnt_3_5 (repeat k calc_CH_6_TO_7 s) = stCnt_3_5 s
       \<and> stCnt_8_9 (repeat k calc_CH_6_TO_7 s) = stCnt_8_9 s
       \<and> length (req (repeat k calc_CH_6_TO_7 s)) = N_CH
       \<and> sint (stCnt_6_7 (repeat k calc_CH_6_TO_7 s))
           = (sint (stCnt_6_7 s) + int k) mod (4 * STEPS_CH_6_7)
       \<and> (\<forall>n<N_CH. req (repeat k calc_CH_6_TO_7 s) ! n
                     - of_int (nominal_req (repeat k calc_CH_6_TO_7 s) n)
                   = req s ! n - of_int (nominal_req s n))"
  using assms
proof (induction k arbitrary: s)
  case 0
  then show ?case by simp
next
  case (Suc k)
  let ?t = "calc_CH_6_TO_7 s"
  have ph: "sint (stCnt_6_7 ?t) = (sint (stCnt_6_7 s) + 1) mod (4 * STEPS_CH_6_7)"
    using Suc.prems by (simp only: calc_CH_6_TO_7_phase)
  have pos: "0 < 4 * STEPS_CH_6_7" by (simp add: macro_defs)
  have t: "length (req ?t) = N_CH" "0 \<le> sint (stCnt_6_7 ?t)"
    "sint (stCnt_6_7 ?t) < 4 * STEPS_CH_6_7"
    using Suc.prems(1) pos unfolding ph by simp_all
  have m: "(sint (stCnt_6_7 ?t) + int k) mod (4 * STEPS_CH_6_7)
         = (sint (stCnt_6_7 s) + int (Suc k)) mod (4 * STEPS_CH_6_7)"
    unfolding ph by (simp add: mod_add_left_eq add.assoc)
  have off: "req ?t ! n - of_int (nominal_req ?t n) = req s ! n - of_int (nominal_req s n)"
    if "n < N_CH" for n
    using calc_CH_6_TO_7_offset [OF Suc.prems(1) that Suc.prems(2,3)] .
  show ?case
    using Suc.IH [OF t] m off by simp
qed

lemma calc_CH_6_TO_7_cycle:
  assumes "length (req s) = N_CH"
    and "0 \<le> sint (stCnt_6_7 s)" and "sint (stCnt_6_7 s) < 4 * STEPS_CH_6_7"
  shows "repeat (nat (4 * STEPS_CH_6_7)) calc_CH_6_TO_7 s = s"
proof -
  note r = repeat_calc_CH_6_TO_7 [OF assms, of "nat (4 * STEPS_CH_6_7)"]
  have pos: "0 \<le> 4 * STEPS_CH_6_7" by (simp add: macro_defs)
  have "(sint (stCnt_6_7 s) + int (nat (4 * STEPS_CH_6_7))) mod (4 * STEPS_CH_6_7)
      = sint (stCnt_6_7 s)"
    using assms(2,3) pos by simp
  then show ?thesis
    using r assms(1) by (intro state_eqI) simp_all
qed

lemma repeat_calc_CH_8_TO_9:
  assumes "length (req s) = N_CH"
    and "0 \<le> sint (stCnt_8_9 s)" and "sint (stCnt_8_9 s) < 4 * STEPS_CH_8_9"
  shows "max_ch (repeat k calc_CH_8_TO_9 s) = max_ch s
       \<and> sum_ch (repeat k calc_CH_8_TO_9 s) = sum_ch s
       \<and> outBits (repeat k calc_CH_8_TO_9 s) = outBits s
       \<and> stCnt_0_2 (repeat k calc_CH_8_TO_9 s) = stCnt_0_2 s
       \<and> stCnt_3_5 (repeat k calc_CH_8_TO_9 s) = stCnt_3_5 s
       \<and> stCnt_6_7 (repeat k calc_CH_8_TO_9 s) = stCnt_6_7 s
       \<and> length (req (repeat k calc_CH_8_TO_9 s)) = N_CH
       \<and> sint (stCnt_8_9 (repeat k calc_CH_8_TO_9 s))
           = (sint (stCnt_8_9 s) + int k) mod (4 * STEPS_CH_8_9)
       \<and> (\<forall>n<N_CH. req (repeat k calc_CH_8_TO_9 s) ! n
                     - of_int (nominal_req (repeat k calc_CH_8_TO_9 s) n)
                   = req s ! n - of_int (nominal_req s n))"
  using assms
proof (induction k arbitrary: s)
  case 0
  then show ?case by simp
next
  case (Suc k)
  let ?t = "calc_CH_8_TO_9 s"
  have ph: "sint (stCnt_8_9 ?t) = (sint (stCnt_8_9 s) + 1) mod (4 * STEPS_CH_8_9)"
    using Suc.prems by (simp only: calc_CH_8_TO_9_phase)
  have pos: "0 < 4 * STEPS_CH_8_9" by (simp add: macro_defs)
  have t: "length (req ?t) = N_CH" "0 \<le> sint (stCnt_8_9 ?t)"
    "sint (stCnt_8_9 ?t) < 4 * STEPS_CH_8_9"
    using Suc.prems(1) pos unfolding ph by simp_all
  have m: "(sint (stCnt_8_9 ?t) + int k) mod (4 * STEPS_CH_8_9)
         = (sint (stCnt_8_9 s) + int (Suc k)) mod (4 * STEPS_CH_8_9)"
    unfolding ph by (simp add: mod_add_left_eq add.assoc)
  have off: "req ?t ! n - of_int (nominal_req ?t n) = req s ! n - of_int (nominal_req s n)"
    if "n < N_CH" for n
    using calc_CH_8_TO_9_offset [OF Suc.prems(1) that Suc.prems(2,3)] .
  show ?case
    using Suc.IH [OF t] m off by simp
qed

lemma calc_CH_8_TO_9_cycle:
  assumes "length (req s) = N_CH"
    and "0 \<le> sint (stCnt_8_9 s)" and "sint (stCnt_8_9 s) < 4 * STEPS_CH_8_9"
  shows "repeat (nat (4 * STEPS_CH_8_9)) calc_CH_8_TO_9 s = s"
proof -
  note r = repeat_calc_CH_8_TO_9 [OF assms, of "nat (4 * STEPS_CH_8_9)"]
  have pos: "0 \<le> 4 * STEPS_CH_8_9" by (simp add: macro_defs)
  have "(sint (stCnt_8_9 s) + int (nat (4 * STEPS_CH_8_9))) mod (4 * STEPS_CH_8_9)
      = sint (stCnt_8_9 s)"
    using assms(2,3) pos by simp
  then show ?thesis
    using r assms(1) by (intro state_eqI) simp_all
qed


section \<open>Envelope cycles\<close>

text \<open>
  C4. For every envelope group whose phase counter is inside its cycle, calling the
  group's function once per phase of the cycle (600, 600, 200 and 600 calls) returns the
  whole state, and so every request and the phase counter, to what it was; in particular
  the group of channels 0 to 2, started at requests (200, 0, 0), is back at
  (200, 0, 0) after 600 calls.
\<close>

theorem envelope_closure:
  assumes "length (req s) = N_CH" and "phases_ok s"
  shows "repeat 600 calc_CH_0_TO_2 s = s \<and> repeat 600 calc_CH_3_TO_5 s = s
       \<and> repeat 200 calc_CH_6_TO_7 s = s \<and> repeat 600 calc_CH_8_TO_9 s = s"
proof -
  have n: "nat (6 * STEPS_CH_0_2) = 600" "nat (6 * STEPS_CH_3_5) = 600"
    "nat (4 * STEPS_CH_6_7) = 200" "nat (4 * STEPS_CH_8_9) = 600"
    by (simp_all add: macro_defs)
  show ?thesis
    using assms calc_CH_0_TO_2_cycle [of s] calc_CH_3_TO_5_cycle [of s]
      calc_CH_6_TO_7_cycle [of s] calc_CH_8_TO_9_cycle [of s]
    unfolding n phases_ok_def by simp
qed

theorem envelope_closure_witness:
  "take 3 (req initial_state) = [200, 0, 0]
     \<and> repeat 600 calc_CH_0_TO_2 initial_state = initial_state
     \<and> repeat 600 calc_CH_3_TO_5 initial_state = initial_state
     \<and> repeat 200 calc_CH_6_TO_7 initial_state = initial_state
     \<and> repeat 600 calc_CH_8_TO_9 initial_state = initial_state"
proof -
  have "length (req initial_state) = N_CH" "phases_ok initial_state"
    by (simp_all add: initial_state_eq phases_ok_def N_CH_def macro_defs)
  then show ?thesis
    using envelope_closure [of initial_state] by (simp add: initial_state_eq)
qed

text \<open>
  C8. In each envelope function at most one of the \<^verbatim>\<open>if\<close> conditions holds, and a
  call either leaves \<^verbatim>\<open>req\<close> as it is or changes exactly one entry, of a channel of
  the group, by the group's increment up or down.
\<close>

theorem one_adjustment_per_call:
  "length (filter (\<lambda>k. k * STEPS_CH_0_2 \<le> sint (stCnt_0_2 s)
                     \<and> sint (stCnt_0_2 s) < (k + 1) * STEPS_CH_0_2) [0, 1, 2, 3, 4, 5]) \<le> 1
   \<and> (req (calc_CH_0_TO_2 s) = req s
      \<or> (\<exists>i\<in>{0, 1, 2}. req (calc_CH_0_TO_2 s) = (req s)[i := req s ! i + of_int INC_CH_0_2]
                     \<or> req (calc_CH_0_TO_2 s) = (req s)[i := req s ! i - of_int INC_CH_0_2]))
   \<and> length (filter (\<lambda>k. k * STEPS_CH_3_5 \<le> sint (stCnt_3_5 s)
                     \<and> sint (stCnt_3_5 s) < (k + 1) * STEPS_CH_3_5) [0, 1, 2, 3, 4, 5]) \<le> 1
   \<and> (req (calc_CH_3_TO_5 s) = req s
      \<or> (\<exists>i\<in>{3, 4, 5}. req (calc_CH_3_TO_5 s) = (req s)[i := req s ! i + of_int INC_CH_3_5]
                     \<or> req (calc_CH_3_TO_5 s) = (req s)[i := req s ! i - of_int INC_CH_3_5]))
   \<and> length (filter (\<lambda>k. k * STEPS_CH_6_7 \<le> sint (stCnt_6_7 s)
                     \<and> sint (stCnt_6_7 s) < (k + 1) * STEPS_CH_6_7) [0, 1, 2, 3]) \<le> 1
   \<and> (req (calc_CH_6_TO_7 s) = req s
      \<or> (\<exists>i\<in>{6, 7}. req (calc_CH_6_TO_7 s) = (req s)[i := req s ! i + of_int INC_CH_6_7]
                     \<or> req (calc_CH_6_TO_7 s) = (req s)[i := req s ! i - of_int INC_CH_6_7]))
   \<and> length (filter (\<lambda>k. k * STEPS_CH_8_9 \<le> sint (stCnt_8_9 s)
                     \<and> sint (stCnt_8_9 s) < (k + 1) * STEPS_CH_8_9) [0, 1, 2, 3]) \<le> 1
   \<and> (req (calc_CH_8_TO_9 s) = req s
      \<or> (\<exists>i\<in>{8, 9}. req (calc_CH_8_TO_9 s) = (req s)[i := req s ! i + of_int INC_CH_8_9]
                     \<or> req (calc_CH_8_TO_9 s) = (req s)[i := req s ! i - of_int INC_CH_8_9]))"
proof -
  have g1: "length (filter (\<lambda>k. k * STEPS_CH_0_2 \<le> sint (stCnt_0_2 s)
                     \<and> sint (stCnt_0_2 s) < (k + 1) * STEPS_CH_0_2) [0, 1, 2, 3, 4, 5]) \<le> 1"
    by (simp add: macro_defs)
  have g2: "length (filter (\<lambda>k. k * STEPS_CH_3_5 \<le> sint (stCnt_3_5 s)
                     \<and> sint (stCnt_3_5 s) < (k + 1) * STEPS_CH_3_5) [0, 1, 2, 3, 4, 5]) \<le> 1"
    by (simp add: macro_defs)
  have g3: "length (filter (\<lambda>k. k * STEPS_CH_6_7 \<le> sint (stCnt_6_7 s)
                     \<and> sint (stCnt_6_7 s) < (k + 1) * STEPS_CH_6_7) [0, 1, 2, 3]) \<le> 1"
    by (simp add: macro_defs)
  have g4: "length (filter (\<lambda>k. k * STEPS_CH_8_9 \<le> sint (stCnt_8_9 s)
                     \<and> sint (stCnt_8_9 s) < (k + 1) * STEPS_CH_8_9) [0, 1, 2, 3]) \<le> 1"
    by (simp add: macro_defs)
  have r1: "req (calc_CH_0_TO_2 s) = req s
      \<or> (\<exists>i\<in>{0, 1, 2}. req (calc_CH_0_TO_2 s) = (req s)[i := req s ! i + of_int INC_CH_0_2]
                     \<or> req (calc_CH_0_TO_2 s) = (req s)[i := req s ! i - of_int INC_CH_0_2])"
    by (simp add: calc_CH_0_TO_2_def Let_def adjust_def macro_defs)
  have r2: "req (calc_CH_3_TO_5 s) = req s
      \<or> (\<exists>i\<in>{3, 4, 5}. req (calc_CH_3_TO_5 s) = (req s)[i := req s ! i + of_int INC_CH_3_5]
                     \<or> req (calc_CH_3_TO_5 s) = (req s)[i := req s ! i - of_int INC_CH_3_5])"
    by (simp add: calc_CH_3_TO_5_def Let_def adjust_def macro_defs)
  have r3: "req (calc_CH_6_TO_7 s) = req s
      \<or> (\<exists>i\<in>{6, 7}. req (calc_CH_6_TO_7 s) = (req s)[i := req s ! i + of_int INC_CH_6_7]
                     \<or> req (calc_CH_6_TO_7 s) = (req s)[i := req s ! i - of_int INC_CH_6_7])"
    by (simp add: calc_CH_6_TO_7_def Let_def adjust_def macro_defs)
  have r4: "req (calc_CH_8_TO_9 s) = req s
      \<or> (\<exists>i\<in>{8, 9}. req (calc_CH_8_TO_9 s) = (req s)[i := req s ! i + of_int INC_CH_8_9]
                     \<or> req (calc_CH_8_TO_9 s) = (req s)[i := req s ! i - of_int INC_CH_8_9])"
    by (simp add: calc_CH_8_TO_9_def Let_def adjust_def macro_defs)
  show ?thesis
    by (intro conjI g1 r1 g2 r2 g3 r3 g4 r4)
qed


section \<open>The states the program reaches\<close>

lemma N_CH_cases:
  assumes "n < N_CH"
  shows "n \<in> {0, 1, 2, 3, 4, 5, 6, 7, 8, 9}"
  using assms unfolding N_CH_def by auto

lemma level_bounds:
  assumes "0 \<le> S" and "0 \<le> inc" and "u \<le> d \<or> d + S \<le> u"
  shows "u \<le> d \<Longrightarrow> 0 \<le> level 0 inc S u d p \<and> level 0 inc S u d p \<le> inc * S"
    and "d + S \<le> u \<Longrightarrow> 0 \<le> level (inc * S) inc S u d p \<and> level (inc * S) inc S u d p \<le> inc * S"
proof -
  have D: "0 \<le> done_steps p lo S \<and> done_steps p lo S \<le> S" for lo
    using assms(1) by (auto simp: done_steps_def)
  have m: "done_steps p d S \<le> done_steps p u S" if "u \<le> d"
    using that assms(1) by (auto simp: done_steps_def)
  have k: "done_steps p d S - done_steps p u S \<le> S \<and> 0 \<le> done_steps p d S - done_steps p u S" if "d + S \<le> u"
    using that assms(1) by (auto simp: done_steps_def)
  show "0 \<le> level 0 inc S u d p \<and> level 0 inc S u d p \<le> inc * S" if "u \<le> d"
  proof -
    have "0 \<le> done_steps p u S - done_steps p d S" "done_steps p u S - done_steps p d S \<le> S"
      using m [OF that] D [of u] D [of d] by simp_all
    then show ?thesis using assms(2) by (simp add: level_def mult_left_mono)
  qed
  show "0 \<le> level (inc * S) inc S u d p \<and> level (inc * S) inc S u d p \<le> inc * S" if "d + S \<le> u"
  proof -
    let ?x = "done_steps p d S - done_steps p u S"
    have x: "0 \<le> ?x" "?x \<le> S" using k [OF that] by simp_all
    have e: "level (inc * S) inc S u d p = inc * (S - ?x)"
      by (simp add: level_def algebra_simps)
    have "0 \<le> inc * (S - ?x)" "inc * (S - ?x) \<le> inc * S"
      using x assms(2) by (simp_all add: mult_left_mono)
    then show ?thesis unfolding e by simp
  qed
qed

lemma nominal_req_bounds:
  assumes "n < N_CH"
  shows "0 \<le> nominal_req s n \<and> nominal_req s n \<le> uint (max_ch initial_state ! n)"
proof -
  have a: "0 \<le> level 0 2 100 u d p \<and> level 0 2 100 u d p \<le> 200" if "u \<le> d" for u d p
    using level_bounds(1) [of 100 2 u d p] that by simp
  have b: "0 \<le> level 200 2 100 u d p \<and> level 200 2 100 u d p \<le> 200" if "d + 100 \<le> u" for u d p
    using level_bounds(2) [of 100 2 u d p] that by simp
  have c: "0 \<le> level 0 2 50 u d p \<and> level 0 2 50 u d p \<le> 100" if "u \<le> d" for u d p
    using level_bounds(1) [of 50 2 u d p] that by simp
  have d: "0 \<le> level 0 1 150 u d p \<and> level 0 1 150 u d p \<le> 150" if "u \<le> d" for u d p
    using level_bounds(1) [of 150 1 u d p] that by simp
  show ?thesis
    using N_CH_cases [OF assms]
    by (auto simp: nominal_req_def initial_state_eq macro_defs a b c d)
qed


lemma nominal_req_word:
  assumes "n < N_CH"
  shows "uint (of_int (nominal_req s n) :: uchar) = nominal_req s n"
    and "nominal_req s n \<le> uint (max_ch initial_state ! n)"
    and "uint (max_ch initial_state ! n) \<le> 200"
proof -
  note b = nominal_req_bounds [OF assms, of s]
  show m: "uint (max_ch initial_state ! n) \<le> 200"
    using N_CH_cases [OF assms] by (auto simp: initial_state_eq)
  show "nominal_req s n \<le> uint (max_ch initial_state ! n)" using b by simp
  have "nominal_req s n < 2 ^ 8" using b m by simp
  then show "uint (of_int (nominal_req s n) :: uchar) = nominal_req s n"
    using b by (simp add: uint_word_of_int_eq take_bit_int_eq_self)
qed

lemma reachable_invD:
  assumes "reachable_inv s"
  shows "arrays_ok s" and "phases_ok s" and "max_ch s = max_ch initial_state"
    and "n < N_CH \<Longrightarrow> req s ! n = of_int (nominal_req s n)"
    and "n < N_CH \<Longrightarrow> sum_ch s ! n < max_ch s ! n"
  using assms unfolding reachable_inv_def by (blast intro: atLeastLessThan_iff [THEN iffD2])+

lemma reachable_invI:
  assumes "arrays_ok s" and "phases_ok s" and "max_ch s = max_ch initial_state"
    and "\<And>n. n < N_CH \<Longrightarrow> req s ! n = of_int (nominal_req s n)"
    and "\<And>n. n < N_CH \<Longrightarrow> sum_ch s ! n < max_ch s ! n"
  shows "reachable_inv s"
  using assms unfolding reachable_inv_def by simp

lemma reachable_inv_req:
  assumes "reachable_inv s" and "n < N_CH"
  shows "int (unat (req s ! n)) = nominal_req s n"
    and "unat (req s ! n) \<le> unat (max_ch s ! n)"
    and "unat (max_ch s ! n) \<le> 65281"
proof -
  have r: "req s ! n = of_int (nominal_req s n)" and m: "max_ch s = max_ch initial_state"
    using reachable_invD(3,4) [OF assms(1)] assms(2) by simp_all
  note w = nominal_req_word(1,2) [OF assms(2), of s] nominal_req_word(3) [OF assms(2)]
  show e: "int (unat (req s ! n)) = nominal_req s n"
    using w(1) by (simp add: r)
  have "int (unat (req s ! n)) \<le> int (unat (max_ch s ! n))"
    unfolding e using w(2) by (simp add: m)
  then show "unat (req s ! n) \<le> unat (max_ch s ! n)" by (simp only: of_nat_le_iff)
  have "int (unat (max_ch s ! n)) \<le> int 65281" using w(3) by (simp add: m)
  then show "unat (max_ch s ! n) \<le> 65281" by (simp only: of_nat_le_iff)
qed

lemma reachable_inv_initial: "reachable_inv initial_state"
proof -
  have "req initial_state ! n = of_int (nominal_req initial_state n)" if "n < N_CH" for n
    using N_CH_cases [OF that]
    by (auto simp: initial_state_eq nominal_req_def level_def done_steps_def macro_defs)
  moreover have "sum_ch initial_state ! n < max_ch initial_state ! n" if "n < N_CH" for n
    using N_CH_cases [OF that] by (auto simp: initial_state_eq)
  moreover have "arrays_ok initial_state" "phases_ok initial_state"
    by (simp_all add: initial_state_eq arrays_ok_def phases_ok_def N_CH_def macro_defs)
  ultimately show ?thesis by (intro reachable_invI) simp_all
qed

lemma reachable_inv_calc_output_bits:
  assumes "reachable_inv s"
  shows "reachable_inv (calc_output_bits s)"
proof (rule reachable_invI)
  note d = reachable_invD [OF assms]
  show "arrays_ok (calc_output_bits s)" using d(1) by simp
  show "phases_ok (calc_output_bits s)" using d(2) by (simp add: phases_ok_def)
  show "max_ch (calc_output_bits s) = max_ch initial_state" using d(3) by simp
  have "nominal_req (calc_output_bits s) n = nominal_req s n" for n
    by (rule nominal_req_cong) simp_all
  then show "req (calc_output_bits s) ! n = of_int (nominal_req (calc_output_bits s) n)"
    if "n < N_CH" for n
    using d(4) [OF that] by simp
  show "sum_ch (calc_output_bits s) ! n < max_ch (calc_output_bits s) ! n" if "n < N_CH" for n
    unfolding calc_output_bits_sum [OF d(1) that] calc_output_bits_fields
    using d(5) [OF that] reachable_inv_req(2,3) [OF assms that] by (rule ds_sum_less)
qed

lemma reachable_inv_calc_CH_0_TO_2:
  assumes "reachable_inv s"
  shows "reachable_inv (calc_CH_0_TO_2 s)"
proof (rule reachable_invI)
  let ?t = "calc_CH_0_TO_2 s"
  note d = reachable_invD [OF assms]
  have len: "length (req s) = N_CH"
    and ph: "0 \<le> sint (stCnt_0_2 s)" "sint (stCnt_0_2 s) < 6 * STEPS_CH_0_2"
    using d(1,2) by (simp_all add: arrays_ok_def phases_ok_def)
  show "arrays_ok ?t" using d(1) by (simp add: arrays_ok_def)
  have "0 \<le> sint (stCnt_0_2 ?t) \<and> sint (stCnt_0_2 ?t) < 6 * STEPS_CH_0_2"
    unfolding calc_CH_0_TO_2_phase [OF ph] by (simp add: macro_defs)
  then show "phases_ok ?t" using d(2) by (simp add: phases_ok_def)
  show "max_ch ?t = max_ch initial_state" using d(3) by simp
  show "req ?t ! n = of_int (nominal_req ?t n)" if "n < N_CH" for n
    using calc_CH_0_TO_2_offset [OF len that ph] d(4) [OF that] by simp
  show "sum_ch ?t ! n < max_ch ?t ! n" if "n < N_CH" for n
    using d(5) [OF that] by simp
qed

lemma reachable_inv_calc_CH_3_TO_5:
  assumes "reachable_inv s"
  shows "reachable_inv (calc_CH_3_TO_5 s)"
proof (rule reachable_invI)
  let ?t = "calc_CH_3_TO_5 s"
  note d = reachable_invD [OF assms]
  have len: "length (req s) = N_CH"
    and ph: "0 \<le> sint (stCnt_3_5 s)" "sint (stCnt_3_5 s) < 6 * STEPS_CH_3_5"
    using d(1,2) by (simp_all add: arrays_ok_def phases_ok_def)
  show "arrays_ok ?t" using d(1) by (simp add: arrays_ok_def)
  have "0 \<le> sint (stCnt_3_5 ?t) \<and> sint (stCnt_3_5 ?t) < 6 * STEPS_CH_3_5"
    unfolding calc_CH_3_TO_5_phase [OF ph] by (simp add: macro_defs)
  then show "phases_ok ?t" using d(2) by (simp add: phases_ok_def)
  show "max_ch ?t = max_ch initial_state" using d(3) by simp
  show "req ?t ! n = of_int (nominal_req ?t n)" if "n < N_CH" for n
    using calc_CH_3_TO_5_offset [OF len that ph] d(4) [OF that] by simp
  show "sum_ch ?t ! n < max_ch ?t ! n" if "n < N_CH" for n
    using d(5) [OF that] by simp
qed

lemma reachable_inv_calc_CH_6_TO_7:
  assumes "reachable_inv s"
  shows "reachable_inv (calc_CH_6_TO_7 s)"
proof (rule reachable_invI)
  let ?t = "calc_CH_6_TO_7 s"
  note d = reachable_invD [OF assms]
  have len: "length (req s) = N_CH"
    and ph: "0 \<le> sint (stCnt_6_7 s)" "sint (stCnt_6_7 s) < 4 * STEPS_CH_6_7"
    using d(1,2) by (simp_all add: arrays_ok_def phases_ok_def)
  show "arrays_ok ?t" using d(1) by (simp add: arrays_ok_def)
  have "0 \<le> sint (stCnt_6_7 ?t) \<and> sint (stCnt_6_7 ?t) < 4 * STEPS_CH_6_7"
    unfolding calc_CH_6_TO_7_phase [OF ph] by (simp add: macro_defs)
  then show "phases_ok ?t" using d(2) by (simp add: phases_ok_def)
  show "max_ch ?t = max_ch initial_state" using d(3) by simp
  show "req ?t ! n = of_int (nominal_req ?t n)" if "n < N_CH" for n
    using calc_CH_6_TO_7_offset [OF len that ph] d(4) [OF that] by simp
  show "sum_ch ?t ! n < max_ch ?t ! n" if "n < N_CH" for n
    using d(5) [OF that] by simp
qed

lemma reachable_inv_calc_CH_8_TO_9:
  assumes "reachable_inv s"
  shows "reachable_inv (calc_CH_8_TO_9 s)"
proof (rule reachable_invI)
  let ?t = "calc_CH_8_TO_9 s"
  note d = reachable_invD [OF assms]
  have len: "length (req s) = N_CH"
    and ph: "0 \<le> sint (stCnt_8_9 s)" "sint (stCnt_8_9 s) < 4 * STEPS_CH_8_9"
    using d(1,2) by (simp_all add: arrays_ok_def phases_ok_def)
  show "arrays_ok ?t" using d(1) by (simp add: arrays_ok_def)
  have "0 \<le> sint (stCnt_8_9 ?t) \<and> sint (stCnt_8_9 ?t) < 4 * STEPS_CH_8_9"
    unfolding calc_CH_8_TO_9_phase [OF ph] by (simp add: macro_defs)
  then show "phases_ok ?t" using d(2) by (simp add: phases_ok_def)
  show "max_ch ?t = max_ch initial_state" using d(3) by simp
  show "req ?t ! n = of_int (nominal_req ?t n)" if "n < N_CH" for n
    using calc_CH_8_TO_9_offset [OF len that ph] d(4) [OF that] by simp
  show "sum_ch ?t ! n < max_ch ?t ! n" if "n < N_CH" for n
    using d(5) [OF that] by simp
qed

lemma reachable_inv_run_calls:
  assumes "reachable_inv s"
  shows "reachable_inv (run_calls cs s)"
  using assms
proof (induction cs arbitrary: s)
  case Nil
  then show ?case by simp
next
  case (Cons c cs)
  have "reachable_inv (do_call c s)"
    using Cons.prems
    by (cases c)
      (simp_all add: reachable_inv_calc_CH_0_TO_2 reachable_inv_calc_CH_3_TO_5
        reachable_inv_calc_CH_6_TO_7 reachable_inv_calc_CH_8_TO_9
        reachable_inv_calc_output_bits)
  then show ?case using Cons.IH by simp
qed

text \<open>The states of the main loop are among those that \<open>run_calls\<close> reaches.\<close>

lemma main_loop_body_run_calls: "\<exists>cs. snd (main_loop_body (c, s)) = run_calls cs s"
proof (cases "envelope_due c")
  case True
  have "snd (main_loop_body (c, s))
      = run_calls [Calc_CH_0_TO_2, Calc_CH_3_TO_5, Calc_CH_6_TO_7, Calc_CH_8_TO_9,
                   Calc_output_bits] s"
    using True by (simp add: main_loop_body_def calc_all_envelopes_def)
  then show ?thesis by blast
next
  case False
  have "snd (main_loop_body (c, s)) = run_calls [Calc_output_bits] s"
    using False by (simp add: main_loop_body_def)
  then show ?thesis by blast
qed

lemma run_calls_append: "run_calls (cs @ ds) s = run_calls ds (run_calls cs s)"
  by (induction cs arbitrary: s) simp_all

lemma main_loop_run_calls: "\<exists>cs. snd (main_loop k (c, s)) = run_calls cs s"
proof (induction k arbitrary: c s)
  case 0
  have "snd (main_loop 0 (c, s)) = run_calls [] s" by simp
  then show ?case by blast
next
  case (Suc k)
  obtain c' s' where b: "main_loop_body (c, s) = (c', s')" by (cases "main_loop_body (c, s)")
  obtain cs where cs: "s' = run_calls cs s"
    using main_loop_body_run_calls [of c s] b by auto
  obtain ds where ds: "snd (main_loop k (c', s')) = run_calls ds s'"
    using Suc.IH [of c' s'] by blast
  have "snd (main_loop (Suc k) (c, s)) = run_calls (cs @ ds) s"
    using ds unfolding cs by (simp add: b cs run_calls_append)
  then show ?case by blast
qed


text \<open>
  C5. In every state reached from the start-up state by any interleaving of calls of the
  envelope functions and of \<^verbatim>\<open>calc_output_bits\<close>, the request of every channel, read as
  a number, is the nominal level of the channel at the current phase, hence never
  wrapped, and it is at most the resolution of the channel.
\<close>

theorem requests_in_range:
  assumes "n < N_CH"
  shows "unat (req (run_calls cs initial_state) ! n)
           \<le> unat (max_ch (run_calls cs initial_state) ! n)
       \<and> uint (req (run_calls cs initial_state) ! n)
           = nominal_req (run_calls cs initial_state) n
       \<and> 0 \<le> nominal_req (run_calls cs initial_state) n
       \<and> nominal_req (run_calls cs initial_state) n
           \<le> uint (max_ch (run_calls cs initial_state) ! n)
       \<and> unat (req (snd (main_loop k (c, initial_state))) ! n)
           \<le> unat (max_ch (snd (main_loop k (c, initial_state))) ! n)"
proof -
  let ?s = "run_calls cs initial_state"
  have i: "reachable_inv (run_calls ds initial_state)" for ds
    using reachable_inv_initial by (rule reachable_inv_run_calls)
  note r = reachable_inv_req [OF i assms, of cs]
  have u: "uint (req ?s ! n) = nominal_req ?s n" using r(1) by simp
  have "int (unat (req ?s ! n)) \<le> int (unat (max_ch ?s ! n))"
    using r(2) by (simp only: of_nat_le_iff)
  then have "nominal_req ?s n \<le> uint (max_ch ?s ! n)" using u by simp
  moreover have "0 \<le> nominal_req ?s n" using u [symmetric] by simp
  moreover have "unat (req (snd (main_loop k (c, initial_state))) ! n)
      \<le> unat (max_ch (snd (main_loop k (c, initial_state))) ! n)"
  proof -
    obtain ds where "snd (main_loop k (c, initial_state)) = run_calls ds initial_state"
      using main_loop_run_calls by blast
    then show ?thesis using reachable_inv_req(2) [OF i assms, of ds] by simp
  qed
  ultimately show ?thesis using r(2) u by simp
qed

theorem requests_in_range_witness:
  "unat (req (run_calls [Calc_CH_0_TO_2, Calc_output_bits, Calc_CH_0_TO_2] initial_state) ! 1)
     \<le> unat (max_ch (run_calls [Calc_CH_0_TO_2, Calc_output_bits, Calc_CH_0_TO_2] initial_state) ! 1)
   \<and> nominal_req (run_calls [Calc_CH_0_TO_2, Calc_output_bits, Calc_CH_0_TO_2] initial_state) 1 = 4"
proof -
  have n: "(1::nat) < N_CH" by (simp add: N_CH_def)
  have "stCnt_0_2 (run_calls [Calc_CH_0_TO_2, Calc_output_bits, Calc_CH_0_TO_2] initial_state) = 2"
    by (simp add: initial_state_eq next_stCnt_def macro_defs)
  then have "nominal_req (run_calls [Calc_CH_0_TO_2, Calc_output_bits, Calc_CH_0_TO_2] initial_state) 1 = 4"
    by (simp add: nominal_req_def level_def done_steps_def macro_defs)
  then show ?thesis
    using requests_in_range [OF n, of "[Calc_CH_0_TO_2, Calc_output_bits, Calc_CH_0_TO_2]"]
    by simp
qed

text \<open>
  C2. In every state reached from the start-up state by any interleaving of calls, each
  integrator is below the resolution of its channel immediately after
  \<^verbatim>\<open>calc_output_bits\<close>, after a pass of the main loop, and after any number \<open>k\<close> of
  passes of the main loop from the start-up state (whatever the loop counter is at first).
\<close>

theorem integrators_bounded:
  assumes "n < N_CH"
  shows "unat (sum_ch (calc_output_bits (run_calls cs initial_state)) ! n)
           < unat (max_ch (calc_output_bits (run_calls cs initial_state)) ! n)
       \<and> unat (sum_ch (snd (main_loop_body (c, run_calls cs initial_state))) ! n)
           < unat (max_ch (snd (main_loop_body (c, run_calls cs initial_state))) ! n)
       \<and> unat (sum_ch (snd (main_loop k (c, initial_state))) ! n)
           < unat (max_ch (snd (main_loop k (c, initial_state))) ! n)"
proof -
  let ?s = "run_calls cs initial_state"
  have i': "reachable_inv (run_calls ds initial_state)" for ds
    using reachable_inv_initial by (rule reachable_inv_run_calls)
  have i: "reachable_inv ?s" by (rule i')
  have m: "sum_ch (snd (main_loop k (c, initial_state))) ! n
      < max_ch (snd (main_loop k (c, initial_state))) ! n"
  proof -
    obtain ds where "snd (main_loop k (c, initial_state)) = run_calls ds initial_state"
      using main_loop_run_calls by blast
    then show ?thesis using reachable_invD(5) [OF i' assms, of ds] by simp
  qed
  have j: "reachable_inv (calc_output_bits u)" if "reachable_inv u" for u
    using that by (rule reachable_inv_calc_output_bits)
  have e: "reachable_inv (calc_all_envelopes ?s)"
    unfolding calc_all_envelopes_def
    by (intro reachable_inv_calc_CH_8_TO_9 reachable_inv_calc_CH_6_TO_7
        reachable_inv_calc_CH_3_TO_5 reachable_inv_calc_CH_0_TO_2 i)
  have b: "sum_ch u ! n < max_ch u ! n" if "reachable_inv u" for u
    using reachable_invD(5) [OF that assms] .
  have "sum_ch (snd (main_loop_body (c, ?s))) ! n < max_ch (snd (main_loop_body (c, ?s))) ! n"
    using b [OF j [OF i]] b [OF j [OF e]] by (simp add: main_loop_body_def)
  then show ?thesis
    using b [OF j [OF i]] m by (simp add: word_less_nat_alt)
qed

theorem integrators_bounded_witness:
  "unat (sum_ch (calc_output_bits (run_calls [Calc_CH_6_TO_7] initial_state)) ! 7)
     < unat (max_ch (calc_output_bits (run_calls [Calc_CH_6_TO_7] initial_state)) ! 7)
   \<and> max_ch (calc_output_bits (run_calls [Calc_CH_6_TO_7] initial_state)) ! 7 = 100"
proof -
  have n: "(7::nat) < N_CH" by (simp add: N_CH_def)
  show ?thesis
    using integrators_bounded [OF n, of "[Calc_CH_6_TO_7]"]
    by (simp add: initial_state_eq)
qed


section \<open>The cadence of the main loop\<close>

lemma envelope_due_of_nat:
  assumes "j < 64"
  shows "envelope_due (of_nat j) \<longleftrightarrow> j = 63"
proof -
  have b: "(of_nat j + 1 :: 16 word) = of_nat (Suc j)" by simp
  have "(of_nat (Suc j) :: 16 word) AND push_bit 6 1 \<noteq> 0 \<longleftrightarrow> bit (of_nat (Suc j) :: 16 word) 6"
    by (simp add: and_exp_eq_0_iff_not_bit [of _ 6, simplified] push_bit_of_1)
  also have "\<dots> \<longleftrightarrow> bit (Suc j) 6"
    unfolding bit_of_nat_iff by simp
  also have "\<dots> \<longleftrightarrow> j = 63"
  proof -
    have "Suc j div 64 = (if j = 63 then 1 else 0)" using assms by auto
    then show ?thesis by (simp add: bit_iff_odd)
  qed
  finally show ?thesis unfolding envelope_due_def LOOP_SPEED_def b .
qed


lemma main_loop_body_counter:
  "fst (main_loop_body (c, s)) = (if envelope_due c then 0 else c + 1)"
  by (simp add: main_loop_body_def)

lemma main_loop_counter_from:
  assumes "j < 64"
  shows "fst (main_loop k (of_nat j, s)) = of_nat ((j + k) mod 64)
       \<and> envelope_calls k (of_nat j, s) = (j + k) div 64"
  using assms
proof (induction k arbitrary: j s)
  case 0
  then show ?case by simp
next
  case (Suc k)
  obtain c' s' where b: "main_loop_body (of_nat j, s) = (c', s')"
    by (cases "main_loop_body (of_nat j, s)")
  note due = envelope_due_of_nat [OF Suc.prems]
  have c': "c' = (if j = 63 then of_nat 0 else of_nat (Suc j))"
    using main_loop_body_counter [of "of_nat j" s] due b by simp
  have st: "fst (main_loop (Suc k) (of_nat j, s)) = fst (main_loop k (c', s'))"
    "envelope_calls (Suc k) (of_nat j, s) = (if j = 63 then 1 else 0) + envelope_calls k (c', s')"
    by (simp_all add: b due)
  show ?case
  proof (cases "j = 63")
    case True
    have a: "(0 + k) mod 64 = (j + Suc k) mod 64" "1 + (0 + k) div 64 = (j + Suc k) div 64"
      using True by simp_all
    have "c' = of_nat 0" using c' True by simp
    then show ?thesis
      unfolding st using Suc.IH [of 0 s'] True a by (simp only: if_True) simp
  next
    case False
    then have j: "Suc j < 64" using Suc.prems by simp
    have "c' = of_nat (Suc j)" using c' False by simp
    then show ?thesis
      unfolding st using Suc.IH [OF j, of s'] False by (simp only: if_False) simp
  qed
qed

lemma main_loop_counter:
  "fst (main_loop k (0, s)) = of_nat (k mod 64)"
  "envelope_calls k (0, s) = k div 64"
  using main_loop_counter_from [of 0 k s] by simp_all

text \<open>
  The envelope functions read and write the requests and the phase counters only, and
  \<^verbatim>\<open>calc_output_bits\<close> leaves both alone; so these, after any number of passes, are
  what as many calls of the four envelope functions as were due make of them.
\<close>

lemma calc_CH_0_TO_2_envelope_state:
  assumes "envelope_state s = envelope_state t"
  shows "envelope_state (calc_CH_0_TO_2 s) = envelope_state (calc_CH_0_TO_2 t)"
  using assms by (simp add: envelope_state_def calc_CH_0_TO_2_def Let_def)

lemma calc_CH_3_TO_5_envelope_state:
  assumes "envelope_state s = envelope_state t"
  shows "envelope_state (calc_CH_3_TO_5 s) = envelope_state (calc_CH_3_TO_5 t)"
  using assms by (simp add: envelope_state_def calc_CH_3_TO_5_def Let_def)

lemma calc_CH_6_TO_7_envelope_state:
  assumes "envelope_state s = envelope_state t"
  shows "envelope_state (calc_CH_6_TO_7 s) = envelope_state (calc_CH_6_TO_7 t)"
  using assms by (simp add: envelope_state_def calc_CH_6_TO_7_def Let_def)

lemma calc_CH_8_TO_9_envelope_state:
  assumes "envelope_state s = envelope_state t"
  shows "envelope_state (calc_CH_8_TO_9 s) = envelope_state (calc_CH_8_TO_9 t)"
  using assms by (simp add: envelope_state_def calc_CH_8_TO_9_def Let_def)

lemma calc_all_envelopes_envelope_state:
  assumes "envelope_state s = envelope_state t"
  shows "envelope_state (calc_all_envelopes s) = envelope_state (calc_all_envelopes t)"
  unfolding calc_all_envelopes_def
  by (intro calc_CH_8_TO_9_envelope_state calc_CH_6_TO_7_envelope_state
      calc_CH_3_TO_5_envelope_state calc_CH_0_TO_2_envelope_state assms)

lemma calc_output_bits_envelope_state:
  "envelope_state (calc_output_bits s) = envelope_state s"
  by (simp add: envelope_state_def)

lemma repeat_envelope_state:
  assumes "envelope_state s = envelope_state t"
  shows "envelope_state (repeat m calc_all_envelopes s)
       = envelope_state (repeat m calc_all_envelopes t)"
  using assms
proof (induction m arbitrary: s t)
  case 0
  then show ?case by simp
next
  case (Suc m)
  show ?case
    using Suc.IH [OF calc_all_envelopes_envelope_state [OF Suc.prems]] by simp
qed

lemma main_loop_envelope_state_from:
  assumes "j < 64"
  shows "envelope_state (snd (main_loop k (of_nat j, s)))
       = envelope_state (repeat ((j + k) div 64) calc_all_envelopes s)"
  using assms
proof (induction k arbitrary: j s)
  case 0
  then show ?case by simp
next
  case (Suc k)
  note due = envelope_due_of_nat [OF Suc.prems]
  show ?case
  proof (cases "j = 63")
    case True
    let ?t = "calc_output_bits (calc_all_envelopes s)"
    have b: "main_loop_body (of_nat j, s) = (of_nat 0, ?t)"
      using due True by (simp add: main_loop_body_def)
    have d: "(j + Suc k) div 64 = Suc ((0 + k) div 64)" using True by simp
    have "envelope_state (snd (main_loop (Suc k) (of_nat j, s)))
        = envelope_state (repeat ((0 + k) div 64) calc_all_envelopes ?t)"
      using Suc.IH [of 0 ?t] by (simp only: main_loop.simps b)
    also have "\<dots> = envelope_state (repeat ((0 + k) div 64) calc_all_envelopes
                          (calc_all_envelopes s))"
      by (rule repeat_envelope_state) (rule calc_output_bits_envelope_state)
    finally show ?thesis unfolding d by simp
  next
    case False
    let ?t = "calc_output_bits s"
    have j: "Suc j < 64" using False Suc.prems by simp
    have b: "main_loop_body (of_nat j, s) = (of_nat (Suc j), ?t)"
      using due False by (simp add: main_loop_body_def)
    have "envelope_state (snd (main_loop (Suc k) (of_nat j, s)))
        = envelope_state (repeat ((Suc j + k) div 64) calc_all_envelopes ?t)"
      using Suc.IH [OF j, of ?t] by (simp only: main_loop.simps b)
    also have "\<dots> = envelope_state (repeat ((Suc j + k) div 64) calc_all_envelopes s)"
      by (rule repeat_envelope_state) (rule calc_output_bits_envelope_state)
    finally show ?thesis by simp
  qed
qed

lemma main_loop_envelope_state:
  "envelope_state (snd (main_loop k (0, s)))
     = envelope_state (repeat (k div 64) calc_all_envelopes s)"
  using main_loop_envelope_state_from [of 0 k s] by simp

lemma main_loop_Suc: "main_loop (Suc k) cs = main_loop_body (main_loop k cs)"
  by (induction k arbitrary: cs) simp_all

lemma two_envelope_calls:
  "envelope_state (repeat 2 calc_all_envelopes initial_state)
     = ([200, 4, 0, 0, 196, 200, 0, 4, 150, 148], 2, 302, 2, 302)"
  by (simp add: numeral_2_eq_2 envelope_state_def calc_all_envelopes_def
      calc_CH_0_TO_2_def calc_CH_3_TO_5_def calc_CH_6_TO_7_def calc_CH_8_TO_9_def
      adjust_def next_stCnt_def Let_def initial_state_eq macro_defs)

text \<open>
  C6 as stated fails: from counter 0 and the start-up state, the envelope functions are
  due, and are called, twice and not once in \<open>2 ^ (LOOP_SPEED + 1)\<close> passes of the main
  loop. After these passes every phase counter has advanced by 2 and the requests of
  channels 1, 4, 7 and 9 have moved by two increments.
\<close>

theorem envelope_cadence_counterexample:
  "envelope_calls (2 ^ (LOOP_SPEED + 1)) (0, initial_state) = 2
     \<and> envelope_calls (2 ^ (LOOP_SPEED + 1)) (0, initial_state) \<noteq> 1
     \<and> envelope_state initial_state
         = ([200, 0, 0, 0, 200, 200, 0, 0, 150, 150], 0, 300, 0, 300)
     \<and> envelope_state (snd (main_loop (2 ^ (LOOP_SPEED + 1)) (0, initial_state)))
         = ([200, 4, 0, 0, 196, 200, 0, 4, 150, 148], 2, 302, 2, 302)
     \<and> envelope_state (snd (main_loop (2 ^ (LOOP_SPEED + 1)) (0, initial_state)))
         \<noteq> envelope_state (calc_all_envelopes initial_state)"
proof -
  have i: "envelope_state initial_state
      = ([200, 0, 0, 0, 200, 200, 0, 0, 150, 150], 0, 300, 0, 300)"
    by (simp add: envelope_state_def initial_state_eq)
  have m: "envelope_state (snd (main_loop 128 (0, initial_state)))
      = ([200, 4, 0, 0, 196, 200, 0, 4, 150, 148], 2, 302, 2, 302)"
    using main_loop_envelope_state [of 128 initial_state] two_envelope_calls by simp
  have "stCnt_0_2 (calc_all_envelopes initial_state) = 1"
    by (simp add: calc_all_envelopes_def next_stCnt_def initial_state_eq macro_defs)
  then have o: "envelope_state (calc_all_envelopes initial_state)
      \<noteq> ([200, 4, 0, 0, 196, 200, 0, 4, 150, 148], 2, 302, 2, 302)"
    by (simp add: envelope_state_def)
  show ?thesis
    using i m o by (simp add: main_loop_counter(2) LOOP_SPEED_def)
qed

text \<open>
  C6, amended. From counter 0, the four envelope functions are called exactly once per
  \<open>2 ^ LOOP_SPEED\<close> passes of the main loop. Pass number \<open>k + 1\<close> is
  \<^verbatim>\<open>calc_output_bits\<close> run on the state that \<^verbatim>\<open>calc_CH_0_TO_2\<close>, \<^verbatim>\<open>calc_CH_3_TO_5\<close>,
  \<^verbatim>\<open>calc_CH_6_TO_7\<close> and \<^verbatim>\<open>calc_CH_8_TO_9\<close>, called in this order, have left exactly
  when \<open>2 ^ LOOP_SPEED\<close> divides \<open>k + 1\<close>, which is when the incremented counter is
  \<open>2 ^ LOOP_SPEED\<close> (the counter is then set back to 0), and on the unchanged state of
  the pass before otherwise. After \<open>k\<close> passes the requests and the phase counters are
  those that \<open>k div 2 ^ LOOP_SPEED\<close> calls of the four functions make of the first
  state.
\<close>

theorem envelope_cadence:
  "envelope_calls k (0, s) = k div 2 ^ LOOP_SPEED
     \<and> fst (main_loop k (0, s)) = of_nat (k mod 2 ^ LOOP_SPEED)
     \<and> envelope_due (fst (main_loop k (0, s))) = (2 ^ LOOP_SPEED dvd k + 1)
     \<and> envelope_due (fst (main_loop k (0, s)))
         = (fst (main_loop k (0, s)) + 1 = 2 ^ LOOP_SPEED)
     \<and> snd (main_loop (Suc k) (0, s))
         = calc_output_bits
             (if 2 ^ LOOP_SPEED dvd k + 1
              then calc_CH_8_TO_9 (calc_CH_6_TO_7 (calc_CH_3_TO_5 (calc_CH_0_TO_2
                     (snd (main_loop k (0, s))))))
              else snd (main_loop k (0, s)))
     \<and> fst (main_loop (Suc k) (0, s))
         = (if 2 ^ LOOP_SPEED dvd k + 1 then 0 else fst (main_loop k (0, s)) + 1)
     \<and> envelope_state (snd (main_loop k (0, s)))
         = envelope_state
             (repeat (k div 2 ^ LOOP_SPEED)
                (\<lambda>t. calc_CH_8_TO_9 (calc_CH_6_TO_7 (calc_CH_3_TO_5 (calc_CH_0_TO_2 t)))) s)"
proof -
  have m: "k mod 64 < 64" by simp
  have d: "(k mod 64 = 63) = (64 dvd k + 1)" by presburger
  have e: "(of_nat (k mod 64) + 1 = (64 :: 16 word)) = (k mod 64 = 63)"
  proof
    assume "of_nat (k mod 64) + 1 = (64 :: 16 word)"
    then have "(of_nat (Suc (k mod 64)) :: 16 word) = of_nat 64" by simp
    then have "Suc (k mod 64) = 64"
      unfolding word_of_nat_eq_iff using m by (simp add: take_bit_nat_eq_self)
    then show "k mod 64 = 63" by simp
  next
    assume "k mod 64 = 63"
    then show "of_nat (k mod 64) + 1 = (64 :: 16 word)" by simp
  qed
  have due: "envelope_due (fst (main_loop k (0, s))) = (64 dvd k + 1)"
    unfolding main_loop_counter using envelope_due_of_nat [OF m] d by simp
  have counter: "envelope_calls k (0, s) = k div 2 ^ LOOP_SPEED
     \<and> fst (main_loop k (0, s)) = of_nat (k mod 2 ^ LOOP_SPEED)
     \<and> envelope_due (fst (main_loop k (0, s))) = (2 ^ LOOP_SPEED dvd k + 1)
     \<and> envelope_due (fst (main_loop k (0, s)))
         = (fst (main_loop k (0, s)) + 1 = 2 ^ LOOP_SPEED)"
    unfolding main_loop_counter LOOP_SPEED_def
    using envelope_due_of_nat [OF m] d e by simp
  obtain c t where ct: "main_loop k (0, s) = (c, t)" by (cases "main_loop k (0, s)")
  have c: "envelope_due c = (64 dvd k + 1)" using due by (simp add: ct)
  have pass: "snd (main_loop (Suc k) (0, s))
         = calc_output_bits
             (if 2 ^ LOOP_SPEED dvd k + 1
              then calc_CH_8_TO_9 (calc_CH_6_TO_7 (calc_CH_3_TO_5 (calc_CH_0_TO_2
                     (snd (main_loop k (0, s))))))
              else snd (main_loop k (0, s)))"
    unfolding main_loop_Suc ct LOOP_SPEED_def
    using c by (simp add: main_loop_body_def calc_all_envelopes_def)
  have cnt: "fst (main_loop (Suc k) (0, s))
         = (if 2 ^ LOOP_SPEED dvd k + 1 then 0 else fst (main_loop k (0, s)) + 1)"
    unfolding main_loop_Suc ct LOOP_SPEED_def
    using c by (simp add: main_loop_body_def)
  have f: "(\<lambda>t. calc_CH_8_TO_9 (calc_CH_6_TO_7 (calc_CH_3_TO_5 (calc_CH_0_TO_2 t))))
      = calc_all_envelopes"
    by (rule ext) (simp add: calc_all_envelopes_def)
  have env: "envelope_state (snd (main_loop k (0, s)))
         = envelope_state
             (repeat (k div 2 ^ LOOP_SPEED)
                (\<lambda>t. calc_CH_8_TO_9 (calc_CH_6_TO_7 (calc_CH_3_TO_5 (calc_CH_0_TO_2 t)))) s)"
    unfolding f LOOP_SPEED_def using main_loop_envelope_state [of k s] by simp
  show ?thesis
    by (intro conjI counter [THEN conjunct1] counter [THEN conjunct2, THEN conjunct1]
        counter [THEN conjunct2, THEN conjunct2, THEN conjunct1]
        counter [THEN conjunct2, THEN conjunct2, THEN conjunct2] pass cnt env)
qed

theorem envelope_cadence_witness:
  "envelope_calls 127 (0, initial_state) = 1
     \<and> fst (main_loop 127 (0, initial_state)) = 63
     \<and> envelope_due (fst (main_loop 127 (0, initial_state)))
     \<and> fst (main_loop 127 (0, initial_state)) + 1 = 2 ^ LOOP_SPEED
     \<and> snd (main_loop 128 (0, initial_state))
         = calc_output_bits (calc_CH_8_TO_9 (calc_CH_6_TO_7 (calc_CH_3_TO_5 (calc_CH_0_TO_2
             (snd (main_loop 127 (0, initial_state)))))))
     \<and> fst (main_loop 128 (0, initial_state)) = 0
     \<and> envelope_state (snd (main_loop 127 (0, initial_state)))
         = envelope_state (calc_CH_8_TO_9 (calc_CH_6_TO_7 (calc_CH_3_TO_5 (calc_CH_0_TO_2
             initial_state))))"
proof -
  have n: "Suc 127 = 128" by simp
  have d: "(64::nat) dvd 128" by simp
  show ?thesis
    using envelope_cadence [of 127 initial_state] d
    unfolding n by (simp add: LOOP_SPEED_def envelope_due_def)
qed

section \<open>One pass of the main loop\<close>

lemma calc_all_envelopes_fields [simp]:
  "max_ch (calc_all_envelopes s) = max_ch s" "sum_ch (calc_all_envelopes s) = sum_ch s"
  "outBits (calc_all_envelopes s) = outBits s"
  "length (req (calc_all_envelopes s)) = length (req s)"
  by (simp_all add: calc_all_envelopes_def)

lemma calc_all_envelopes_arrays_ok [simp]:
  "arrays_ok (calc_all_envelopes s) = arrays_ok s"
  by (simp add: arrays_ok_def)

text \<open>
  C7. In every pass of the main loop \<^verbatim>\<open>calc_output_bits\<close> runs, and it runs on the state
  the four envelope functions have left when they are due in that pass: the new integrator
  and the output bit of every channel are computed from the request as changed in the same
  pass.
\<close>

theorem envelope_before_modulation:
  assumes "arrays_ok s" and "n < N_CH"
  shows "snd (main_loop_body (c, s))
           = calc_output_bits (if envelope_due c then calc_all_envelopes s else s)
       \<and> req (snd (main_loop_body (c, s)))
           = req (if envelope_due c then calc_all_envelopes s else s)
       \<and> sum_ch (snd (main_loop_body (c, s))) ! n
           = ds_sum (max_ch s ! n) (req (snd (main_loop_body (c, s))) ! n) (sum_ch s ! n)
       \<and> bit (outBits (snd (main_loop_body (c, s)))) n
           = (sum_ch s ! n + ucast (req (snd (main_loop_body (c, s))) ! n) < max_ch s ! n)"
proof (cases "envelope_due c")
  case True
  have ok: "arrays_ok (calc_all_envelopes s)" using assms(1) by simp
  show ?thesis
    using True calc_output_bits_sum [OF ok assms(2)] calc_output_bits_bit [OF ok assms(2)]
    by (simp add: main_loop_body_def)
next
  case False
  show ?thesis
    using False calc_output_bits_sum [OF assms] calc_output_bits_bit [OF assms]
    by (simp add: main_loop_body_def)
qed

lemma calc_all_envelopes_initial_req:
  "req (calc_all_envelopes initial_state) = [200, 2, 0, 0, 198, 200, 0, 2, 150, 149]"
  by (simp add: calc_all_envelopes_def calc_CH_0_TO_2_def calc_CH_3_TO_5_def
      calc_CH_6_TO_7_def calc_CH_8_TO_9_def adjust_def next_stCnt_def Let_def
      initial_state_eq macro_defs)

theorem envelope_before_modulation_witness:
  "envelope_due 63
     \<and> req initial_state ! 4 = 200
     \<and> req (snd (main_loop_body (63, initial_state))) ! 4 = 198
     \<and> sum_ch (snd (main_loop_body (63, initial_state))) ! 4 = 198
     \<and> bit (outBits (snd (main_loop_body (63, initial_state)))) 4"
proof -
  have d: "envelope_due 63" by (simp add: envelope_due_def LOOP_SPEED_def)
  have a: "arrays_ok initial_state" "(4::nat) < N_CH"
    by (simp_all add: initial_state_eq arrays_ok_def N_CH_def)
  have i: "sum_ch initial_state ! 4 = 0" "max_ch initial_state ! 4 = 200"
    "req initial_state ! 4 = 200"
    by (simp_all add: initial_state_eq)
  note t = envelope_before_modulation [OF a, of 63]
  have r: "req (snd (main_loop_body (63, initial_state)))
             = [200, 2, 0, 0, 198, 200, 0, 2, 150, 149]"
    using t d by (simp add: calc_all_envelopes_initial_req)
  have "sum_ch (snd (main_loop_body (63, initial_state))) ! 4
          = ds_sum (max_ch initial_state ! 4)
              (req (snd (main_loop_body (63, initial_state))) ! 4) (sum_ch initial_state ! 4)"
    using t by blast
  then have s4: "sum_ch (snd (main_loop_body (63, initial_state))) ! 4 = 198"
    unfolding r i by (simp add: ds_sum_def)
  have "bit (outBits (snd (main_loop_body (63, initial_state)))) 4
          = (sum_ch initial_state ! 4
               + ucast (req (snd (main_loop_body (63, initial_state))) ! 4)
             < max_ch initial_state ! 4)"
    using t by blast
  then have b4: "bit (outBits (snd (main_loop_body (63, initial_state)))) 4"
    unfolding r i by simp
  show ?thesis using d i(3) r s4 b4 by simp
qed


section \<open>The channels do not depend on each other\<close>

lemma step_channel_fields [simp]:
  "max_ch (step_channel n s) = max_ch s" "req (step_channel n s) = req s"
  "length (sum_ch (step_channel n s)) = length (sum_ch s)"
  by (simp_all add: step_channel_def Let_def)

lemma step_channel_sum:
  "sum_ch (step_channel n s) = (sum_ch s)[n := ds_sum (max_ch s ! n) (req s ! n) (sum_ch s ! n)]"
  by (simp add: step_channel_def Let_def ds_sum_def)

lemma step_channel_bit:
  "bit (outBits (step_channel n s)) m \<longleftrightarrow>
     (if m = n then m < 16 \<and> sum_ch s ! n + ucast (req s ! n) < max_ch s ! n
      else bit (outBits s) m)"
  by (auto simp: step_channel_def Let_def bit_set_bit_iff bit_unset_bit_iff
      dest: bit_imp_le_length)

lemma step_in_order_fields [simp]:
  "max_ch (step_in_order ns s) = max_ch s" "req (step_in_order ns s) = req s"
  "length (sum_ch (step_in_order ns s)) = length (sum_ch s)"
  by (induction ns arbitrary: s; simp)+

lemma step_in_order_sum:
  assumes "distinct ns" and "\<forall>n\<in>set ns. n < length (sum_ch s)"
  shows "sum_ch (step_in_order ns s) ! n =
     (if n \<in> set ns then ds_sum (max_ch s ! n) (req s ! n) (sum_ch s ! n) else sum_ch s ! n)"
  using assms
proof (induction ns arbitrary: s)
  case Nil
  then show ?case by simp
next
  case (Cons a ns)
  have ih: "sum_ch (step_in_order ns (step_channel a s)) ! n =
     (if n \<in> set ns
      then ds_sum (max_ch s ! n) (req s ! n) (sum_ch (step_channel a s) ! n)
      else sum_ch (step_channel a s) ! n)"
    using Cons.IH [of "step_channel a s"] Cons.prems by simp
  show ?case
  proof (cases "n = a")
    case True
    then show ?thesis using ih Cons.prems by (simp add: step_channel_sum)
  next
    case False
    then show ?thesis using ih by (simp add: step_channel_sum)
  qed
qed

lemma step_in_order_bit:
  assumes "distinct ns" and "\<forall>n\<in>set ns. n < length (sum_ch s)"
  shows "bit (outBits (step_in_order ns s)) m \<longleftrightarrow>
     (if m \<in> set ns then m < 16 \<and> sum_ch s ! m + ucast (req s ! m) < max_ch s ! m
      else bit (outBits s) m)"
  using assms
proof (induction ns arbitrary: s)
  case Nil
  then show ?case by simp
next
  case (Cons a ns)
  have ih: "bit (outBits (step_in_order ns (step_channel a s))) m \<longleftrightarrow>
     (if m \<in> set ns
      then m < 16 \<and> sum_ch (step_channel a s) ! m + ucast (req s ! m) < max_ch s ! m
      else bit (outBits (step_channel a s)) m)"
    using Cons.IH [of "step_channel a s"] Cons.prems by simp
  show ?case
  proof (cases "m = a")
    case True
    then show ?thesis using ih Cons.prems by (simp add: step_channel_bit)
  next
    case False
    then show ?thesis using ih by (simp add: step_channel_sum step_channel_bit)
  qed
qed

text \<open>
  C10. One call of \<^verbatim>\<open>calc_output_bits\<close> gives every channel, from that channel's own
  request, resolution and integrator alone, the sum of integrator and request as new
  integrator and output bit 1 when that sum is below the resolution, and otherwise the
  sum less the resolution and output bit 0; stepping the channels one at a time in any
  order gives every channel the same integrator and the same output bit.
\<close>

theorem channels_independent:
  assumes "arrays_ok s" and "n < N_CH" and "distinct ns" and "set ns = {0..<N_CH}"
  shows "sum_ch (calc_output_bits s) ! n
           = (if sum_ch s ! n + ucast (req s ! n) < max_ch s ! n
              then sum_ch s ! n + ucast (req s ! n)
              else sum_ch s ! n + ucast (req s ! n) - max_ch s ! n)
       \<and> bit (outBits (calc_output_bits s)) n
           = (sum_ch s ! n + ucast (req s ! n) < max_ch s ! n)
       \<and> sum_ch (step_in_order ns s) = sum_ch (calc_output_bits s)
       \<and> bit (outBits (step_in_order ns s)) n = bit (outBits (calc_output_bits s)) n"
proof -
  have len: "length (sum_ch s) = N_CH" using assms(1) by (simp add: arrays_ok_def)
  have b: "\<forall>k\<in>set ns. k < length (sum_ch s)" using assms(4) len by simp
  have mem: "k \<in> set ns" if "k < N_CH" for k using that assms(4) by simp
  have "sum_ch (step_in_order ns s) ! k = sum_ch (calc_output_bits s) ! k" if "k < N_CH" for k
    using step_in_order_sum [OF assms(3) b, of k] calc_output_bits_sum [OF assms(1) that]
      mem [OF that] by simp
  then have l: "sum_ch (step_in_order ns s) = sum_ch (calc_output_bits s)"
    using len by (intro nth_equalityI) simp_all
  have n16: "n < 16" using assms(2) by (simp add: N_CH_def)
  show ?thesis
    using l step_in_order_bit [OF assms(3) b, of n] calc_output_bits_bit [OF assms(1,2)]
      calc_output_bits_sum [OF assms(1,2)] mem [OF assms(2)] n16
    by (simp add: ds_sum_def)
qed

theorem channels_independent_witness:
  "sum_ch (calc_output_bits quarter_state) ! 6 = 25
     \<and> bit (outBits (calc_output_bits quarter_state)) 6
     \<and> sum_ch (step_in_order [3, 9, 0, 6, 1, 8, 2, 7, 5, 4] quarter_state)
         = sum_ch (calc_output_bits quarter_state)
     \<and> bit (outBits (step_in_order [3, 9, 0, 6, 1, 8, 2, 7, 5, 4] quarter_state)) 6"
proof -
  have a: "(6::nat) < N_CH" "distinct [3, 9, 0, 6, 1, 8, 2, 7, 5, 4 :: nat]"
    by (simp_all add: N_CH_def)
  have b: "set [3, 9, 0, 6, 1, 8, 2, 7, 5, 4 :: nat] = {0..<N_CH}"
    by (auto simp: N_CH_def)
  note t = channels_independent [OF quarter_state_ch6(1) a b]
  show ?thesis using t unfolding quarter_state_ch6 by simp
qed


section \<open>Start-up\<close>

lemma start_up_source_config: "start_up source_config = Some initial_state"
  by (simp add: start_up_def source_config_def init_all_CH_arrays_cfg_def power_on_cfg_def
      initial_state_def init_all_CH_arrays_def power_on_def)

lemma power_on_cfg_arrays:
  "length (max_ch (power_on_cfg cfg)) = N_CH" "length (req (power_on_cfg cfg)) = N_CH"
  "length (sum_ch (power_on_cfg cfg)) = N_CH"
  by (simp_all add: power_on_cfg_def)

text \<open>
  C9 as stated fails: a configuration with a resolution of zero and one whose step count
  does not divide the resolution both start.
\<close>

theorem config_check_counterexample:
  "\<not> config_valid zero_resolution_config \<and> start_up zero_resolution_config \<noteq> None
     \<and> \<not> config_valid uneven_steps_config \<and> start_up uneven_steps_config \<noteq> None"
  by (simp add: config_valid_def zero_resolution_config_def uneven_steps_config_def
      source_config_def start_up_def macro_defs)

text \<open>
  C9, amended. Start-up checks nothing: under every configuration it completes, with the
  arrays at their declared length, the resolution of every channel and the initial requests
  set from the configuration and every integrator 0; the configuration of the source is
  valid, and start-up under it gives the start-up state.
\<close>

theorem start_up_total:
  "(\<exists>s. start_up cfg = Some s \<and> arrays_ok s
        \<and> max_ch s = map of_int
            [cfg_MAX_CH_0_2 cfg, cfg_MAX_CH_0_2 cfg, cfg_MAX_CH_0_2 cfg,
             cfg_MAX_CH_3_5 cfg, cfg_MAX_CH_3_5 cfg, cfg_MAX_CH_3_5 cfg,
             cfg_MAX_CH_6_7 cfg, cfg_MAX_CH_6_7 cfg,
             cfg_MAX_CH_8_9 cfg, cfg_MAX_CH_8_9 cfg]
        \<and> req s = map of_int
            [cfg_MAX_CH_0_2 cfg, 0, 0, 0, cfg_MAX_CH_3_5 cfg, cfg_MAX_CH_3_5 cfg,
             0, 0, cfg_MAX_CH_8_9 cfg, cfg_MAX_CH_8_9 cfg]
        \<and> sum_ch s = replicate N_CH 0)
   \<and> config_valid source_config
   \<and> start_up source_config = Some initial_state"
proof -
  have v: "config_valid source_config"
    by (simp add: config_valid_def source_config_def macro_defs)
  have "arrays_ok (init_all_CH_arrays_cfg cfg (power_on_cfg cfg))"
    by (simp add: arrays_ok_def init_all_CH_arrays_cfg_def power_on_cfg_arrays)
  moreover have "max_ch (init_all_CH_arrays_cfg cfg (power_on_cfg cfg)) = map of_int
            [cfg_MAX_CH_0_2 cfg, cfg_MAX_CH_0_2 cfg, cfg_MAX_CH_0_2 cfg,
             cfg_MAX_CH_3_5 cfg, cfg_MAX_CH_3_5 cfg, cfg_MAX_CH_3_5 cfg,
             cfg_MAX_CH_6_7 cfg, cfg_MAX_CH_6_7 cfg,
             cfg_MAX_CH_8_9 cfg, cfg_MAX_CH_8_9 cfg]"
    by (simp add: init_all_CH_arrays_cfg_def power_on_cfg_def N_CH_def numeral_eq_Suc)
  moreover have "req (init_all_CH_arrays_cfg cfg (power_on_cfg cfg)) = map of_int
            [cfg_MAX_CH_0_2 cfg, 0, 0, 0, cfg_MAX_CH_3_5 cfg, cfg_MAX_CH_3_5 cfg,
             0, 0, cfg_MAX_CH_8_9 cfg, cfg_MAX_CH_8_9 cfg]"
    by (simp add: init_all_CH_arrays_cfg_def power_on_cfg_def N_CH_def numeral_eq_Suc)
  moreover have "sum_ch (init_all_CH_arrays_cfg cfg (power_on_cfg cfg)) = replicate N_CH 0"
    by (simp add: init_all_CH_arrays_cfg_def power_on_cfg_def)
  ultimately have "\<exists>s. start_up cfg = Some s \<and> arrays_ok s
        \<and> max_ch s = map of_int
            [cfg_MAX_CH_0_2 cfg, cfg_MAX_CH_0_2 cfg, cfg_MAX_CH_0_2 cfg,
             cfg_MAX_CH_3_5 cfg, cfg_MAX_CH_3_5 cfg, cfg_MAX_CH_3_5 cfg,
             cfg_MAX_CH_6_7 cfg, cfg_MAX_CH_6_7 cfg,
             cfg_MAX_CH_8_9 cfg, cfg_MAX_CH_8_9 cfg]
        \<and> req s = map of_int
            [cfg_MAX_CH_0_2 cfg, 0, 0, 0, cfg_MAX_CH_3_5 cfg, cfg_MAX_CH_3_5 cfg,
             0, 0, cfg_MAX_CH_8_9 cfg, cfg_MAX_CH_8_9 cfg]
        \<and> sum_ch s = replicate N_CH 0"
    by (simp add: start_up_def)
  then show ?thesis
    using v start_up_source_config by blast
qed


end
